theory Spec2Isabelle
  imports Complex_Main
begin

section \<open>The relay server (server/index.js)\<close>

subsection \<open>Values\<close>

text \<open>
  A socket is an object of the ws library; the server only compares sockets by identity,
  reads \<open>readyState\<close> and calls \<open>send\<close>. A socket is therefore a number, and the
  one field the server reads is a component of the state below.

  A message arrives as a Buffer with the flag \<open>isBinary\<close>. A \<open>char\<close> is one byte of a
  Buffer and one code unit below 256 of a JavaScript string.
\<close>

type_synonym sock = nat
type_synonym buffer = "char list"

text \<open>
  The values \<open>JSON.parse\<close> returns. An object is the list of its own properties, each
  key once; their order is not used.
\<close>

datatype json =
    JNull
  | JBool bool
  | JNumber real
  | JString string
  | JArray "json list"
  | JObject "(string \<times> json) list"

datatype js_error = TypeError | SyntaxError

text \<open>
  \<open>payload.type\<close> and \<open>payload.room\<close>: reading a property of \<open>null\<close> throws, an object
  gives its own property or \<open>undefined\<close> (\<open>None\<close>), and a boolean, number, string or
  array has neither a property \<open>type\<close> nor \<open>room\<close>.
\<close>

fun get_prop :: "json \<Rightarrow> string \<Rightarrow> js_error + json option" where
  "get_prop JNull k = Inl TypeError"
| "get_prop (JObject kvs) k = Inr (map_of kvs k)"
| "get_prop v k = Inr None"

text \<open>
  \<open>String.prototype.trim\<close> removes white space and line terminators at both ends; below
  256 these are TAB, LF, VT, FF, CR, SP and NBSP.
\<close>

definition is_ws :: "char \<Rightarrow> bool" where
  "is_ws c \<longleftrightarrow> c \<in> set [CHR 0x09, CHR 0x0A, CHR 0x0B, CHR 0x0C, CHR 0x0D, CHR 0x20, CHR 0xA0]"

definition trim :: "string \<Rightarrow> string" where
  "trim s = rev (dropWhile is_ws (rev (dropWhile is_ws s)))"

text \<open>
  \<open>room?.trim()\<close> on the value of \<open>payload.room\<close>: \<open>undefined\<close> and \<open>null\<close> give
  \<open>undefined\<close>; a string is trimmed; any other value has no callable \<open>trim\<close> and the
  call throws.
\<close>

fun optional_trim :: "json option \<Rightarrow> js_error + string option" where
  "optional_trim None = Inr None"
| "optional_trim (Some JNull) = Inr None"
| "optional_trim (Some (JString s)) = Inr (Some (trim s))"
| "optional_trim (Some v) = Inl TypeError"

text \<open>What the server sends: a payload through \<open>sendJson\<close>, or relayed data with its flag.\<close>

datatype payload =
    RoomState string nat nat
  | ErrorMsg string string

datatype frame =
    Json payload
  | Data buffer bool

type_synonym outbox = "(sock \<times> frame) list"

subsection \<open>State\<close>

text \<open>
  \<open>rooms\<close> is a Map from room to a Set of sockets; a Set iterates in insertion order and
  holds no element twice, so it is a list kept without repetition by \<open>set_add\<close>.
  \<open>socketToRoom\<close> is a Map from socket to room. \<open>readyOpen c\<close> is
  \<open>c.readyState === c.OPEN\<close>.
\<close>

record server =
  rooms :: "string \<rightharpoonup> sock list"
  socketToRoom :: "sock \<rightharpoonup> string"
  readyOpen :: "sock \<Rightarrow> bool"

definition ROOM_LIMIT :: nat where
  "ROOM_LIMIT = 2"

definition init :: "(sock \<Rightarrow> bool) \<Rightarrow> server" where
  "init opn = \<lparr>rooms = Map.empty, socketToRoom = Map.empty, readyOpen = opn\<rparr>"

definition set_add :: "sock \<Rightarrow> sock list \<Rightarrow> sock list" where
  "set_add c ms = (if c \<in> set ms then ms else ms @ [c])"

definition set_delete :: "sock \<Rightarrow> sock list \<Rightarrow> sock list" where
  "set_delete c ms = removeAll c ms"

text \<open>The members of a room, none when \<open>rooms\<close> has no such room.\<close>

definition members_of :: "server \<Rightarrow> string \<Rightarrow> sock list" where
  "members_of st room = (case rooms st room of None \<Rightarrow> [] | Some ms \<Rightarrow> ms)"

subsection \<open>Operations\<close>

definition sendJson :: "server \<Rightarrow> sock \<Rightarrow> payload \<Rightarrow> outbox" where
  "sendJson st socket p = (if readyOpen st socket then [(socket, Json p)] else [])"

definition notify :: "server \<Rightarrow> sock list \<Rightarrow> payload \<Rightarrow> outbox" where
  "notify st members p = concat (map (\<lambda>peer. sendJson st peer p) members)"

definition getRoomSet :: "server \<Rightarrow> string \<Rightarrow> server \<times> sock list" where
  "getRoomSet st room =
     (case rooms st room of
        None \<Rightarrow> (st\<lparr>rooms := (rooms st)(room \<mapsto> [])\<rparr>, [])
      | Some members \<Rightarrow> (st, members))"

text \<open>
  \<open>leaveRoom\<close> returns the room left (\<open>null\<close> is \<open>None\<close>), the state and what was sent.
  \<open>!room\<close> holds for \<open>undefined\<close> and for the empty string.
\<close>

definition leaveRoom :: "server \<Rightarrow> sock \<Rightarrow> string option \<times> server \<times> outbox" where
  "leaveRoom st socket =
     (case socketToRoom st socket of
        None \<Rightarrow> (None, st, [])
      | Some room \<Rightarrow>
          if room = [] then (None, st, [])
          else
            let (st1, out) =
              (case rooms st room of
                 None \<Rightarrow> (st, [])
               | Some members \<Rightarrow>
                   let ms = set_delete socket members in
                   if length ms = 0 then (st\<lparr>rooms := (rooms st)(room := None)\<rparr>, [])
                   else (st\<lparr>rooms := (rooms st)(room \<mapsto> ms)\<rparr>,
                         notify st ms (RoomState room (length ms) ROOM_LIMIT)))
            in (Some room, st1\<lparr>socketToRoom := (socketToRoom st1)(socket := None)\<rparr>, out))"

text \<open>
  \<open>joinRoom\<close> throws only in its first statement, before anything is changed; every
  other path returns the state and what was sent.
\<close>

definition joinRoom :: "server \<Rightarrow> sock \<Rightarrow> json option \<Rightarrow> js_error + server \<times> outbox" where
  "joinRoom st socket room =
     (case optional_trim room of
        Inl e \<Rightarrow> Inl e
      | Inr None \<Rightarrow>
          Inr (st, sendJson st socket (ErrorMsg ''invalid-room'' ''Room is required.''))
      | Inr (Some cleanRoom) \<Rightarrow>
          if cleanRoom = [] then
            Inr (st, sendJson st socket (ErrorMsg ''invalid-room'' ''Room is required.''))
          else
            let (left, st1, out1) = leaveRoom st socket;
                (st2, members) = getRoomSet st1 cleanRoom
            in if length members \<ge> ROOM_LIMIT then
                 Inr (st2, out1 @ sendJson st2 socket (ErrorMsg ''room-full'' ''Room is full.''))
               else
                 let ms = set_add socket members;
                     st3 = st2\<lparr>rooms := (rooms st2)(cleanRoom \<mapsto> ms),
                               socketToRoom := (socketToRoom st2)(socket \<mapsto> cleanRoom)\<rparr>
                 in Inr (st3, out1 @ notify st3 ms (RoomState cleanRoom (length ms) ROOM_LIMIT)))"

definition broadcastToRoom :: "server \<Rightarrow> sock \<Rightarrow> buffer \<Rightarrow> bool \<Rightarrow> outbox" where
  "broadcastToRoom st sender data isBinary =
     (case socketToRoom st sender of
        None \<Rightarrow> []
      | Some room \<Rightarrow>
          if room = [] then []
          else
            (case rooms st room of
               None \<Rightarrow> []
             | Some members \<Rightarrow>
                 concat (map (\<lambda>client.
                   if client = sender \<or> \<not> readyOpen st client then []
                   else [(client, Data data isBinary)]) members)))"

subsection \<open>Event handlers\<close>

text \<open>
  The handler of \<open>message\<close>. \<open>parse data\<close> is \<open>JSON.parse(data.toString())\<close>, with
  \<open>None\<close> when it throws. Whatever is thrown inside the \<open>try\<close> block, by \<open>JSON.parse\<close>,
  by reading \<open>payload.type\<close> or by \<open>joinRoom\<close>, is caught, and control reaches the last
  statement of the handler.
\<close>

definition try_control ::
  "(buffer \<Rightarrow> json option) \<Rightarrow> server \<Rightarrow> sock \<Rightarrow> buffer \<Rightarrow> js_error + (server \<times> outbox) option" where
  "try_control parse st socket data =
     (case parse data of
        None \<Rightarrow> Inl SyntaxError
      | Some payload \<Rightarrow>
          (case get_prop payload ''type'' of
             Inl e \<Rightarrow> Inl e
           | Inr ty \<Rightarrow>
               if ty = Some (JString ''join'') then
                 (case get_prop payload ''room'' of
                    Inl e \<Rightarrow> Inl e
                  | Inr room \<Rightarrow>
                      (case joinRoom st socket room of
                         Inl e \<Rightarrow> Inl e
                       | Inr r \<Rightarrow> Inr (Some r)))
               else if ty = Some (JString ''leave'') then
                 (let (left, st', out) = leaveRoom st socket in Inr (Some (st', out)))
               else if ty = Some (JString ''audio-config'') then
                 Inr (Some (st, broadcastToRoom st socket data False))
               else Inr None))"

definition on_message ::
  "(buffer \<Rightarrow> json option) \<Rightarrow> server \<Rightarrow> sock \<Rightarrow> buffer \<Rightarrow> bool \<Rightarrow> server \<times> outbox" where
  "on_message parse st socket data isBinary =
     (if \<not> isBinary then
        (case try_control parse st socket data of
           Inr (Some r) \<Rightarrow> r
         | Inr None \<Rightarrow> (st, broadcastToRoom st socket data isBinary)
         | Inl e \<Rightarrow> (st, broadcastToRoom st socket data isBinary))
      else (st, broadcastToRoom st socket data isBinary))"

definition on_close :: "server \<Rightarrow> sock \<Rightarrow> server \<times> outbox" where
  "on_close st socket = (let (left, st', out) = leaveRoom st socket in (st', out))"

text \<open>
  What happens to the server: a message or the close of a connection, or the library
  changes a socket's \<open>readyState\<close>.
\<close>

datatype event =
    Message sock buffer bool
  | Close sock
  | ReadyState sock bool

fun handle :: "(buffer \<Rightarrow> json option) \<Rightarrow> server \<Rightarrow> event \<Rightarrow> server \<times> outbox" where
  "handle parse st (Message c data isBinary) = on_message parse st c data isBinary"
| "handle parse st (Close c) = on_close st c"
| "handle parse st (ReadyState c b) = (st\<lparr>readyOpen := (readyOpen st)(c := b)\<rparr>, [])"

fun run :: "(buffer \<Rightarrow> json option) \<Rightarrow> server \<Rightarrow> event list \<Rightarrow> server \<times> outbox" where
  "run parse st [] = (st, [])"
| "run parse st (e # es) =
     (let (st1, out1) = handle parse st e;
          (st2, out2) = run parse st1 es
      in (st2, out1 @ out2))"

subsection \<open>The invariant of the registry\<close>

text \<open>
  Every room in \<open>rooms\<close> has one or two members, each once, and \<open>socketToRoom\<close> is the
  inverse of membership.
\<close>

definition registry_inv :: "server \<Rightarrow> bool" where
  "registry_inv st \<longleftrightarrow>
     (\<forall>R ms. rooms st R = Some ms \<longrightarrow>
        distinct ms \<and> 1 \<le> length ms \<and> length ms \<le> ROOM_LIMIT \<and>
        (\<forall>c \<in> set ms. socketToRoom st c = Some R)) \<and>
     (\<forall>c R. socketToRoom st c = Some R \<longrightarrow>
        R \<noteq> [] \<and> (\<exists>ms. rooms st R = Some ms \<and> c \<in> set ms))"

subsection \<open>Sample inputs\<close>

text \<open>
  Two text messages, and \<open>JSON.parse\<close> restricted to them (any other text is taken as
  not parsing).
\<close>

definition join_abc :: buffer where
  \<open>join_abc = ''{"type":"join","room":"abc"}''\<close>

definition join_five :: buffer where
  \<open>join_five = ''{"type":"join","room":5}''\<close>

definition sample_parse :: "buffer \<Rightarrow> json option" where
  "sample_parse = map_of
     [(join_abc, JObject [(''type'', JString ''join''), (''room'', JString ''abc'')]),
      (join_five, JObject [(''type'', JString ''join''), (''room'', JNumber 5)])]"

text \<open>The state once sockets 1 and 2, both open, have joined room \<open>abc\<close>.\<close>

definition paired :: server where
  "paired = fst (run sample_parse (init (\<lambda>c. True))
     [Message 1 join_abc False, Message 2 join_abc False])"

section \<open>The client (client/src/App.jsx)\<close>

subsection \<open>Numbers\<close>

text \<open>
  A JavaScript number is \<open>NaN\<close>, an infinity or a finite value. Only \<open>||\<close> and
  \<open>Math.max\<close> are applied to it, which compare and select and never round, so a finite
  value is a real number (of which the doubles are some).
\<close>

datatype number = NaN | NegInfinity | Finite real | Infinity

text \<open>\<open>ToBoolean\<close> of a number: \<open>NaN\<close> and zero are false.\<close>

fun truthy :: "number \<Rightarrow> bool" where
  "truthy NaN = False"
| "truthy (Finite x) = (x \<noteq> 0)"
| "truthy NegInfinity = True"
| "truthy Infinity = True"

definition or_else :: "number \<Rightarrow> number \<Rightarrow> number" where
  "or_else a b = (if truthy a then a else b)"

fun math_max :: "number \<Rightarrow> number \<Rightarrow> number" where
  "math_max NaN y = NaN"
| "math_max x NaN = NaN"
| "math_max Infinity y = Infinity"
| "math_max x Infinity = Infinity"
| "math_max NegInfinity y = y"
| "math_max x NegInfinity = x"
| "math_max (Finite x) (Finite y) = Finite (max x y)"

text \<open>
  In \<open>startRecording\<close>, with \<open>t\<close> the value of \<open>Number(timeslice)\<close>: the field
  \<open>timeSliceMs\<close> of the object \<open>meta\<close> is \<open>Number(timeslice) || 250\<close>, and the
  recorder is started with \<open>Math.max(50, Number(timeslice) || 250)\<close>.
\<close>

definition timeSliceMs :: "number \<Rightarrow> number" where
  "timeSliceMs t = or_else t (Finite 250)"

definition start_interval :: "number \<Rightarrow> number" where
  "start_interval t = math_max (Finite 50) (or_else t (Finite 250))"

text \<open>
  \<open>JSON.stringify\<close> writes a finite number as it is and writes \<open>null\<close> (\<open>None\<close>) for
  \<open>NaN\<close> and the infinities; this is the \<open>timeSliceMs\<close> that is sent.
\<close>

fun json_number :: "number \<Rightarrow> real option" where
  "json_number (Finite x) = Some x"
| "json_number NaN = None"
| "json_number NegInfinity = None"
| "json_number Infinity = None"

text \<open>
  The state \<open>timeslice\<close> is 250 at first and then the value of the range input, whose
  \<open>min\<close> is 100, \<open>max\<close> 1000 and \<open>step\<close> 50.
\<close>

definition timeslice_values :: "real list" where
  "timeslice_values = 250 # map (\<lambda>n. 100 + 50 * real n) [0..<19]"

subsection \<open>The capture pipeline\<close>

text \<open>
  What the socket of the client gets to send: the audio-config message (\<open>mimeType\<close>,
  \<open>sampleRate\<close>, \<open>channels\<close>, \<open>timeSliceMs\<close>) and the chunks of the recorder.
\<close>

datatype wsmsg =
    AudioConfig string "nat option" "nat option" "real option"
  | Chunk buffer

datatype ws_state = Connecting | Open | Closing | Closed

datatype rstate = Inactive | Recording

text \<open>
  A MediaRecorder: its \<open>state\<close> and the interval it was last started with. A recorder is
  made for one stream and is named by that stream.
\<close>

record recorder =
  rstate :: rstate
  interval :: "number option"

text \<open>
  What \<open>getUserMedia\<close> resolves with, and what the browser answers for that stream: the
  settings of its first audio track, and for \<open>new MediaRecorder\<close> either the message of
  the exception thrown or the \<open>mimeType\<close> of the recorder.
\<close>

record grant =
  stream :: nat
  sampleRate :: "nat option"
  channelCount :: "nat option"
  recorderMime :: "string + string"

text \<open>
  The state \<open>startRecording\<close> and \<open>stopRecording\<close> work on: the React state
  \<open>isRecording\<close>, \<open>error\<close>, \<open>selectedType\<close> and \<open>timeslice\<close> (as \<open>Number(timeslice)\<close>), the refs
  \<open>streamRef\<close> and \<open>recorderRef\<close>, the recorders made, the streams whose tracks have not
  been stopped (\<open>live\<close>: the device is held), the \<open>readyState\<close> of \<open>wsRef.current\<close>, what
  was handed to its \<open>send\<close>, and the number of calls of \<open>getUserMedia\<close> not yet settled.
  A handler reads the value of \<open>isRecording\<close> of the latest render.
\<close>

record capture =
  isRecording :: bool
  error :: string
  selectedType :: string
  timeslice :: number
  hasGetUserMedia :: bool
  ws :: ws_state
  acquiring :: nat
  streamRef :: "nat option"
  recorderRef :: "nat option"
  recorders :: "nat \<rightharpoonup> recorder"
  live :: "nat set"
  sent :: "wsmsg list"

text \<open>\<open>x || null\<close> on a track setting: \<open>undefined\<close> and 0 give \<open>null\<close>.\<close>

fun or_null :: "nat option \<Rightarrow> nat option" where
  "or_null None = None"
| "or_null (Some n) = (if n = 0 then None else Some n)"

text \<open>\<open>stream.getTracks().forEach((track) => track.stop())\<close>.\<close>

definition stop_tracks :: "nat \<Rightarrow> capture \<Rightarrow> capture" where
  "stop_tracks s st = st\<lparr>live := live st - {s}\<rparr>"

text \<open>\<open>startRecording\<close> up to the \<open>await\<close>.\<close>

definition startRecording :: "capture \<Rightarrow> capture" where
  "startRecording st =
     (if isRecording st then st
      else
        let st1 = st\<lparr>error := []\<rparr> in
        if \<not> hasGetUserMedia st1 then
          st1\<lparr>error := ''getUserMedia is not supported in this browser.''\<rparr>
        else if ws st1 \<noteq> Open then
          st1\<lparr>error := ''WebSocket is not connected.''\<rparr>
        else st1\<lparr>acquiring := Suc (acquiring st1)\<rparr>)"

text \<open>
  The \<open>catch\<close> block of \<open>startRecording\<close>, with the stream if one was assigned and the
  message of what was thrown (\<open>err?.message || 'Unable to access microphone.'\<close>).
\<close>

definition catch_start :: "nat option \<Rightarrow> string \<Rightarrow> capture \<Rightarrow> capture" where
  "catch_start s msg st =
     (let st1 = (case s of None \<Rightarrow> st | Some x \<Rightarrow> stop_tracks x st)
      in st1\<lparr>error := (if msg = [] then ''Unable to access microphone.'' else msg)\<rparr>)"

text \<open>
  \<open>startRecording\<close> after the \<open>await\<close>, when \<open>getUserMedia\<close> resolved with a stream.
  \<open>send\<close> of a socket that is connecting throws; of a closing or closed one it drops the
  data.
\<close>

definition startRecording_granted :: "grant \<Rightarrow> capture \<Rightarrow> capture" where
  "startRecording_granted g st =
     (let s = stream g;
          st1 = st\<lparr>live := insert s (live st), streamRef := Some s\<rparr>
      in case recorderMime g of
           Inl msg \<Rightarrow> catch_start (Some s) msg st1
         | Inr mime \<Rightarrow>
             let st2 = st1\<lparr>recorderRef := Some s,
                            recorders := (recorders st1)(s \<mapsto> \<lparr>rstate = Inactive, interval = None\<rparr>)\<rparr>;
                 meta = AudioConfig (if mime \<noteq> [] then mime else selectedType st2)
                          (or_null (sampleRate g)) (or_null (channelCount g))
                          (json_number (timeSliceMs (timeslice st2)))
             in if ws st2 = Connecting then catch_start (Some s) ''InvalidStateError'' st2
                else
                  let st3 = (if ws st2 = Open then st2\<lparr>sent := sent st2 @ [meta]\<rparr> else st2);
                      st4 = st3\<lparr>recorders := (recorders st3)(s \<mapsto>
                               \<lparr>rstate = Recording,
                                interval = Some (start_interval (timeslice st3))\<rparr>)\<rparr>
                  in st4\<lparr>isRecording := True\<rparr>)"

text \<open>\<open>startRecording\<close> after the \<open>await\<close>, when \<open>getUserMedia\<close> rejected.\<close>

definition startRecording_denied :: "string \<Rightarrow> capture \<Rightarrow> capture" where
  "startRecording_denied msg st = catch_start None msg st"

text \<open>
  \<open>stopRecording\<close>. \<open>recorder.stop()\<close> makes the recorder inactive; its last
  \<open>dataavailable\<close> and its \<open>stop\<close> event come later.
\<close>

definition active_recorder :: "capture \<Rightarrow> (nat \<times> recorder) option" where
  "active_recorder st =
     (case recorderRef st of
        None \<Rightarrow> None
      | Some r \<Rightarrow>
          (case recorders st r of
             None \<Rightarrow> None
           | Some rec \<Rightarrow> if rstate rec \<noteq> Inactive then Some (r, rec) else None))"

definition stopRecording :: "capture \<Rightarrow> capture" where
  "stopRecording st =
     (case active_recorder st of
        Some (r, rec) \<Rightarrow> st\<lparr>recorders := (recorders st)(r \<mapsto> rec\<lparr>rstate := Inactive\<rparr>)\<rparr>
      | None \<Rightarrow>
          let st1 = (case streamRef st of
                       None \<Rightarrow> st
                     | Some s \<Rightarrow> (stop_tracks s st)\<lparr>streamRef := None\<rparr>)
          in st1\<lparr>isRecording := False\<rparr>)"

text \<open>The handlers set on the recorder made for stream \<open>s\<close>.\<close>

definition ondataavailable :: "nat \<Rightarrow> buffer \<Rightarrow> capture \<Rightarrow> capture" where
  "ondataavailable s d st =
     (if length d = 0 then st
      else if ws st \<noteq> Open then st
      else st\<lparr>sent := sent st @ [Chunk d]\<rparr>)"

definition onstop :: "nat \<Rightarrow> capture \<Rightarrow> capture" where
  "onstop s st = (stop_tracks s st)\<lparr>streamRef := None, isRecording := False\<rparr>"

definition onerror :: "nat \<Rightarrow> capture \<Rightarrow> capture" where
  "onerror s st =
     (stop_tracks s st)\<lparr>streamRef := None, isRecording := False, error := ''Recorder error''\<rparr>"

text \<open>
  What happens to the pipeline: the two intents, the settling of a pending
  \<open>getUserMedia\<close>, and the events of the recorder of a stream. A recorder has its handlers
  from the moment it is made, so its events reach a handler only then.
\<close>

datatype cevent =
    StartIntent
  | StopIntent
  | Acquired grant
  | Denied string
  | DataAvailable nat buffer
  | RecorderStop nat
  | RecorderError nat

fun capture_step :: "capture \<Rightarrow> cevent \<Rightarrow> capture" where
  "capture_step st StartIntent = startRecording st"
| "capture_step st StopIntent = stopRecording st"
| "capture_step st (Acquired g) =
     (if acquiring st = 0 then st
      else startRecording_granted g (st\<lparr>acquiring := acquiring st - 1\<rparr>))"
| "capture_step st (Denied msg) =
     (if acquiring st = 0 then st
      else startRecording_denied msg (st\<lparr>acquiring := acquiring st - 1\<rparr>))"
| "capture_step st (DataAvailable s d) =
     (if recorders st s = None then st else ondataavailable s d st)"
| "capture_step st (RecorderStop s) =
     (if recorders st s = None then st else onstop s st)"
| "capture_step st (RecorderError s) =
     (if recorders st s = None then st else onerror s st)"

definition capture_run :: "capture \<Rightarrow> cevent list \<Rightarrow> capture" where
  "capture_run st evs = foldl capture_step st evs"

text \<open>
  The pipeline at rest, with the socket open: not recording, nothing pending, no stream
  and no recorder.
\<close>

definition idle_capture :: "string \<Rightarrow> number \<Rightarrow> capture" where
  "idle_capture ty t =
     \<lparr>isRecording = False, error = [], selectedType = ty, timeslice = t,
      hasGetUserMedia = True, ws = Open, acquiring = 0, streamRef = None,
      recorderRef = None, recorders = Map.empty, live = {}, sent = []\<rparr>"

definition sample_grant :: grant where
  "sample_grant = \<lparr>stream = 0, sampleRate = Some 48000, channelCount = Some 1,
                   recorderMime = Inr ''audio/webm;codecs=opus''\<rparr>"

subsection \<open>The playback queue\<close>

text \<open>
  The handler \<open>socket.onmessage\<close> for binary data makes a Blob of the data and chains a
  callback on the promise in \<open>playQueueRef\<close>:
  \<open>playQueueRef.current = playQueueRef.current.then(() => new Promise(...))\<close>.
  The callback makes an Audio element for the blob and calls \<open>play\<close>; the handlers of
  the element (\<open>onended\<close>, \<open>onerror\<close>, and the \<open>catch\<close> of \<open>play\<close>) revoke the URL and
  resolve.

  Promises are numbers. A promise returned by \<open>then\<close> takes the state of the promise its
  callback returns, and no code of the program runs between the two, so they are one
  promise here; the Audio element made by the callback has the same number. A pending
  promise holds the callbacks chained on it, each with the promise \<open>then\<close> returned for
  it. Jobs of a fulfilled promise run before the next event is handled, so they are part
  of the step that queued them.
\<close>

datatype blob = Blob buffer string

datatype action =
    Play nat blob
  | Revoke nat

record player =
  incomingMime :: string
  wsSelectedType :: string
  fresh :: nat
  fulfilled :: "nat set"
  reactions :: "nat \<Rightarrow> (blob \<times> nat) list"
  playQueueRef :: nat
  started :: "nat set"

text \<open>
  \<open>playQueueRef\<close> starts as \<open>Promise.resolve()\<close>, promise 0. \<open>ty\<close> is the \<open>selectedType\<close>
  the handler was made with.
\<close>

definition player_init :: "string \<Rightarrow> player" where
  "player_init ty =
     \<lparr>incomingMime = [], wsSelectedType = ty, fresh = 1, fulfilled = {0},
      reactions = (\<lambda>p. []), playQueueRef = 0, started = {}\<rparr>"

text \<open>\<open>incomingMetaRef.current.mimeType || selectedType || 'audio/webm'\<close>.\<close>

definition mime_of :: "player \<Rightarrow> string" where
  "mime_of st =
     (if incomingMime st \<noteq> [] then incomingMime st
      else if wsSelectedType st \<noteq> [] then wsSelectedType st
      else ''audio/webm'')"

text \<open>The callback given to \<open>then\<close>, for the blob \<open>b\<close> and the promise \<open>q\<close>.\<close>

definition run_callback :: "blob \<Rightarrow> nat \<Rightarrow> player \<Rightarrow> player \<times> action list" where
  "run_callback b q st = (st\<lparr>started := insert q (started st)\<rparr>, [Play q b])"

fun run_reactions :: "(blob \<times> nat) list \<Rightarrow> player \<Rightarrow> player \<times> action list" where
  "run_reactions [] st = (st, [])"
| "run_reactions ((b, q) # rs) st =
     (let (st1, a1) = run_callback b q st;
          (st2, a2) = run_reactions rs st1
      in (st2, a1 @ a2))"

text \<open>\<open>playQueueRef.current = playQueueRef.current.then(callback)\<close>.\<close>

definition then_play :: "blob \<Rightarrow> player \<Rightarrow> player \<times> action list" where
  "then_play b st =
     (let p = playQueueRef st;
          q = fresh st;
          st1 = st\<lparr>fresh := Suc q, playQueueRef := q\<rparr>
      in if p \<in> fulfilled st1 then run_callback b q st1
         else (st1\<lparr>reactions := (reactions st1)(p := reactions st1 p @ [(b, q)])\<rparr>, []))"

text \<open>\<open>resolve()\<close> for promise \<open>q\<close>: nothing on a promise already fulfilled.\<close>

definition resolve :: "nat \<Rightarrow> player \<Rightarrow> player \<times> action list" where
  "resolve q st =
     (if q \<in> fulfilled st then (st, [])
      else run_reactions (reactions st q)
             (st\<lparr>fulfilled := insert q (fulfilled st), reactions := (reactions st)(q := [])\<rparr>))"

text \<open>Each of the three handlers of Audio element \<open>q\<close>.\<close>

definition settle_audio :: "nat \<Rightarrow> player \<Rightarrow> player \<times> action list" where
  "settle_audio q st = (let (st1, acts) = resolve q st in (st1, Revoke q # acts))"

text \<open>
  What happens to the queue: binary data arrives; \<open>incomingMetaRef.current.mimeType\<close> is
  set (after an audio-config message); an Audio element ends, fails, or its \<open>play\<close> is
  rejected. An element has its handlers once it is made.
\<close>

datatype pevent =
    Binary buffer
  | MetaChanged string
  | Ended nat
  | AudioError nat
  | PlayRejected nat

fun player_step :: "player \<Rightarrow> pevent \<Rightarrow> player \<times> action list" where
  "player_step st (Binary d) = then_play (Blob d (mime_of st)) st"
| "player_step st (MetaChanged m) = (st\<lparr>incomingMime := m\<rparr>, [])"
| "player_step st (Ended q) = (if q \<in> started st then settle_audio q st else (st, []))"
| "player_step st (AudioError q) = (if q \<in> started st then settle_audio q st else (st, []))"
| "player_step st (PlayRejected q) = (if q \<in> started st then settle_audio q st else (st, []))"

text \<open>The log of a run: every event, followed by what its handler did.\<close>

datatype entry = In pevent | Out action

fun player_run :: "player \<Rightarrow> pevent list \<Rightarrow> player \<times> entry list" where
  "player_run st [] = (st, [])"
| "player_run st (e # es) =
     (let (st1, acts) = player_step st e;
          (st2, rest) = player_run st1 es
      in (st2, In e # map Out acts @ rest))"

text \<open>
  Reading a log. The data arrived and the data played, in order; and the element that is
  playing at the end of a log: an element plays from its \<open>Play\<close> to the first of its
  events \<open>Ended\<close>, \<open>AudioError\<close> and \<open>PlayRejected\<close>. \<open>playing\<close> is \<open>None\<close> when some
  \<open>Play\<close> came while an element was playing.
\<close>

fun arrived_data :: "entry list \<Rightarrow> buffer list" where
  "arrived_data [] = []"
| "arrived_data (In (Binary d) # l) = d # arrived_data l"
| "arrived_data (x # l) = arrived_data l"

fun played_data :: "entry list \<Rightarrow> buffer list" where
  "played_data [] = []"
| "played_data (Out (Play q (Blob d m)) # l) = d # played_data l"
| "played_data (x # l) = played_data l"

fun finishes :: "pevent \<Rightarrow> nat \<Rightarrow> bool" where
  "finishes (Ended a) q = (a = q)"
| "finishes (AudioError a) q = (a = q)"
| "finishes (PlayRejected a) q = (a = q)"
| "finishes e q = False"

fun playing_step :: "nat option option \<Rightarrow> entry \<Rightarrow> nat option option" where
  "playing_step None x = None"
| "playing_step (Some cur) (Out (Play q b)) = (if cur = None then Some (Some q) else None)"
| "playing_step (Some cur) (Out (Revoke q)) = Some cur"
| "playing_step (Some cur) (In e) =
     (case cur of
        None \<Rightarrow> Some None
      | Some q \<Rightarrow> if finishes e q then Some None else Some (Some q))"

definition playing :: "entry list \<Rightarrow> nat option option" where
  "playing l = foldl playing_step (Some None) l"


text \<open>
  The shape of every state of the queue, for the blobs \<open>bs\<close> that arrived: callbacks
  \<open>1..k\<close> have run, promises \<open>0..f\<close> are fulfilled, element \<open>k\<close> is playing when
  \<open>k = f + 1\<close>, and each pending promise from \<open>k\<close> on holds the callback of the next blob.
\<close>

fun blob_data :: "blob \<Rightarrow> buffer" where
  "blob_data (Blob d m) = d"

definition current :: "nat \<Rightarrow> nat \<Rightarrow> nat option" where
  "current k f = (if k = Suc f then Some k else None)"

definition player_inv :: "blob list \<Rightarrow> nat \<Rightarrow> nat \<Rightarrow> player \<Rightarrow> bool" where
  "player_inv bs k f st \<longleftrightarrow>
     fresh st = Suc (length bs) \<and> playQueueRef st = length bs \<and>
     started st = {1..k} \<and> fulfilled st = {..f} \<and>
     f \<le> k \<and> k = min (length bs) (Suc f) \<and>
     (\<forall>q. reactions st q = (if k \<le> q \<and> q < length bs then [(bs ! q, Suc q)] else []))"

text \<open>
  How a log stands to such a state: element \<open>k\<close> is playing exactly when \<open>k = f + 1\<close>,
  the data arrived are those of \<open>bs\<close>, and the data played are those of the first \<open>k\<close>.
\<close>

definition log_rel :: "blob list \<Rightarrow> nat \<Rightarrow> nat \<Rightarrow> entry list \<Rightarrow> bool" where
  "log_rel bs k f lg \<longleftrightarrow>
     playing lg = Some (current k f) \<and>
     arrived_data lg = map blob_data bs \<and>
     played_data lg = map blob_data (take k bs)"

section \<open>Properties of the relay server\<close>

subsection \<open>Leaving a room\<close>

lemma inv_room:
  "registry_inv st \<Longrightarrow> rooms st R = Some ms \<Longrightarrow> distinct ms \<and> ms \<noteq> [] \<and> length ms \<le> ROOM_LIMIT"
  unfolding registry_inv_def by fastforce

lemma inv_member:
  "registry_inv st \<Longrightarrow> rooms st R = Some ms \<Longrightarrow> c \<in> set ms \<Longrightarrow> socketToRoom st c = Some R"
  unfolding registry_inv_def by blast

lemma inv_room_of:
  "registry_inv st \<Longrightarrow> socketToRoom st c = Some R \<Longrightarrow>
     R \<noteq> [] \<and> (\<exists>ms. rooms st R = Some ms \<and> c \<in> set ms)"
  unfolding registry_inv_def by blast

lemma leaveRoom_none:
  "socketToRoom st c = None \<Longrightarrow> leaveRoom st c = (None, st, [])"
  by (simp add: leaveRoom_def)

lemma leaveRoom_some:
  assumes "registry_inv st" and "socketToRoom st c = Some R"
  obtains ms where "rooms st R = Some ms" and "c \<in> set ms" and "R \<noteq> []" and
    "leaveRoom st c =
       (Some R,
        st\<lparr>rooms := (rooms st)(R := (if removeAll c ms = [] then None else Some (removeAll c ms))),
            socketToRoom := (socketToRoom st)(c := None)\<rparr>,
        (if removeAll c ms = [] then []
         else notify st (removeAll c ms) (RoomState R (length (removeAll c ms)) ROOM_LIMIT)))"
proof -
  from inv_room_of [OF assms] obtain ms where ms: "rooms st R = Some ms" "c \<in> set ms" and R: "R \<noteq> []"
    by blast
  show thesis
    by (rule that [OF ms R]) (simp add: leaveRoom_def assms(2) ms R Let_def set_delete_def)
qed

lemma leaveRoom_readyOpen [simp]: "readyOpen (fst (snd (leaveRoom st c))) = readyOpen st"
  by (simp add: leaveRoom_def Let_def split: option.splits)

lemma leaveRoom_inv:
  assumes "registry_inv st"
  shows "registry_inv (fst (snd (leaveRoom st c)))"
proof (cases "socketToRoom st c")
  case None
  then show ?thesis using assms by (simp add: leaveRoom_none)
next
  case (Some R)
  from leaveRoom_some [OF assms Some] obtain ms where
    ms: "rooms st R = Some ms" "c \<in> set ms" "R \<noteq> []" and
    eq: "leaveRoom st c =
       (Some R,
        st\<lparr>rooms := (rooms st)(R := (if removeAll c ms = [] then None else Some (removeAll c ms))),
            socketToRoom := (socketToRoom st)(c := None)\<rparr>,
        (if removeAll c ms = [] then []
         else notify st (removeAll c ms) (RoomState R (length (removeAll c ms)) ROOM_LIMIT)))"
    by blast
  have d: "distinct ms" "length ms \<le> ROOM_LIMIT"
    using inv_room [OF assms ms(1)] by simp_all
  have len: "length (removeAll c ms) \<le> ROOM_LIMIT"
    using d(2) length_removeAll_less_eq [of c ms] by linarith
  have other: "\<And>R' ms'. R' \<noteq> R \<Longrightarrow> rooms st R' = Some ms' \<Longrightarrow> c \<notin> set ms'"
    using inv_member [OF assms] Some by fastforce
  have here0: "\<And>c'. socketToRoom st c' = Some R \<Longrightarrow> c' \<noteq> c \<Longrightarrow> c' \<in> set (removeAll c ms)"
    using inv_room_of [OF assms] ms(1) by fastforce
  have here: "\<And>c'. socketToRoom st c' = Some R \<Longrightarrow> c' \<noteq> c \<Longrightarrow>
      removeAll c ms \<noteq> [] \<and> c' \<in> set ms"
    using here0 by fastforce
  show ?thesis
    unfolding eq registry_inv_def
  proof (intro conjI allI impI)
    fix R' ms'
    assume a: "rooms (fst (snd (Some R,
        st\<lparr>rooms := (rooms st)(R := (if removeAll c ms = [] then None else Some (removeAll c ms))),
            socketToRoom := (socketToRoom st)(c := None)\<rparr>,
        (if removeAll c ms = [] then []
         else notify st (removeAll c ms) (RoomState R (length (removeAll c ms)) ROOM_LIMIT))))) R' = Some ms'"
    show "distinct ms'" using a d inv_room [OF assms, of R' ms'] by (auto split: if_splits simp: distinct_removeAll)
    show "1 \<le> length ms'" using a inv_room [OF assms, of R' ms']
      by (cases "removeAll c ms") (auto split: if_splits simp: Suc_le_eq)
    show "length ms' \<le> ROOM_LIMIT" using a len inv_room [OF assms, of R' ms'] by (auto split: if_splits)
    show "\<forall>c'\<in>set ms'. socketToRoom (fst (snd (Some R,
        st\<lparr>rooms := (rooms st)(R := (if removeAll c ms = [] then None else Some (removeAll c ms))),
            socketToRoom := (socketToRoom st)(c := None)\<rparr>,
        (if removeAll c ms = [] then []
         else notify st (removeAll c ms) (RoomState R (length (removeAll c ms)) ROOM_LIMIT))))) c' = Some R'"
      using a other [of R' ms'] inv_member [OF assms, of R' ms'] inv_member [OF assms ms(1)]
      by (auto split: if_splits)
  next
    fix c' R'
    assume a: "socketToRoom (fst (snd (Some R,
        st\<lparr>rooms := (rooms st)(R := (if removeAll c ms = [] then None else Some (removeAll c ms))),
            socketToRoom := (socketToRoom st)(c := None)\<rparr>,
        (if removeAll c ms = [] then []
         else notify st (removeAll c ms) (RoomState R (length (removeAll c ms)) ROOM_LIMIT))))) c' = Some R'"
    then have c': "c' \<noteq> c" "socketToRoom st c' = Some R'" by (auto split: if_splits)
    show "R' \<noteq> []" using inv_room_of [OF assms c'(2)] by simp
    show "\<exists>ms'. rooms (fst (snd (Some R,
        st\<lparr>rooms := (rooms st)(R := (if removeAll c ms = [] then None else Some (removeAll c ms))),
            socketToRoom := (socketToRoom st)(c := None)\<rparr>,
        (if removeAll c ms = [] then []
         else notify st (removeAll c ms) (RoomState R (length (removeAll c ms)) ROOM_LIMIT))))) R' = Some ms' \<and> c' \<in> set ms'"
      using inv_room_of [OF assms c'(2)] here [of c'] c' by auto
  qed
qed

lemma leaveRoom_left:
  assumes "registry_inv st" and "leaveRoom st c = (left, st1, out1)"
  shows "registry_inv st1" and "socketToRoom st1 c = None" and "readyOpen st1 = readyOpen st"
    and "\<And>R. members_of st1 R = removeAll c (members_of st R)"
    and "\<And>R. rooms st1 R = None \<longleftrightarrow> members_of st1 R = []"
proof -
  show inv1: "registry_inv st1" using leaveRoom_inv [OF assms(1), of c] assms(2) by simp
  show "readyOpen st1 = readyOpen st" using leaveRoom_readyOpen [of st c] assms(2) by simp
  show none: "socketToRoom st1 c = None"
  proof (cases "socketToRoom st c")
    case None
    then show ?thesis using assms(2) by (simp add: leaveRoom_none)
  next
    case (Some R)
    from leaveRoom_some [OF assms(1) Some] assms(2) show ?thesis by fastforce
  qed
  show "\<And>R. rooms st1 R = None \<longleftrightarrow> members_of st1 R = []"
    using inv_room [OF inv1] by (auto simp: members_of_def split: option.splits)
  show "\<And>R. members_of st1 R = removeAll c (members_of st R)"
  proof -
    fix R'
    have notin: "\<And>R'' ms. rooms st R'' = Some ms \<Longrightarrow> socketToRoom st c \<noteq> Some R'' \<Longrightarrow> c \<notin> set ms"
      using inv_member [OF assms(1)] by blast
    show "members_of st1 R' = removeAll c (members_of st R')"
    proof (cases "socketToRoom st c")
      case None
      then have "st1 = st" using assms(2) by (simp add: leaveRoom_none)
      then show ?thesis using notin [of R'] None
        by (auto simp: members_of_def split: option.splits)
    next
      case (Some R)
      from leaveRoom_some [OF assms(1) Some] obtain ms where
        ms: "rooms st R = Some ms" "c \<in> set ms" and
        eq: "leaveRoom st c =
         (Some R,
          st\<lparr>rooms := (rooms st)(R := (if removeAll c ms = [] then None else Some (removeAll c ms))),
              socketToRoom := (socketToRoom st)(c := None)\<rparr>,
          (if removeAll c ms = [] then []
           else notify st (removeAll c ms) (RoomState R (length (removeAll c ms)) ROOM_LIMIT)))"
        by blast
      have st1: "st1 = st\<lparr>rooms := (rooms st)(R := (if removeAll c ms = [] then None else Some (removeAll c ms))),
              socketToRoom := (socketToRoom st)(c := None)\<rparr>"
        using eq assms(2) by simp
      show ?thesis
      proof (cases "R' = R")
        case True
        then show ?thesis by (simp add: st1 members_of_def ms(1))
      next
        case False
        then show ?thesis using notin [of R'] Some
          by (auto simp: st1 members_of_def split: option.splits)
      qed
    qed
  qed
qed

subsection \<open>Joining a room\<close>

lemma joinRoom_throw:
  "optional_trim room = Inl e \<Longrightarrow> joinRoom st c room = Inl e"
  by (simp add: joinRoom_def)

lemma joinRoom_invalid:
  "optional_trim room = Inr None \<or> optional_trim room = Inr (Some []) \<Longrightarrow>
   joinRoom st c room = Inr (st, sendJson st c (ErrorMsg ''invalid-room'' ''Room is required.''))"
  by (auto simp: joinRoom_def)

lemma joinRoom_valid:
  assumes "optional_trim room = Inr (Some R)" and "R \<noteq> []"
    and "leaveRoom st c = (left, st1, out1)"
  shows "joinRoom st c room =
     (if length (members_of st1 R) \<ge> ROOM_LIMIT then
        Inr (st1, out1 @ sendJson st c (ErrorMsg ''room-full'' ''Room is full.''))
      else
        Inr (st1\<lparr>rooms := (rooms st1)(R \<mapsto> set_add c (members_of st1 R)),
                 socketToRoom := (socketToRoom st1)(c \<mapsto> R)\<rparr>,
             out1 @ notify st (set_add c (members_of st1 R))
               (RoomState R (length (set_add c (members_of st1 R))) ROOM_LIMIT)))"
proof -
  have ro: "readyOpen st1 = readyOpen st"
    using leaveRoom_readyOpen [of st c] assms(3) by simp
  show ?thesis
  proof (cases "rooms st1 R")
    case None
    then show ?thesis using assms ro
      by (simp add: joinRoom_def getRoomSet_def members_of_def ROOM_LIMIT_def Let_def
          sendJson_def notify_def)
  next
    case (Some ms)
    then show ?thesis using assms ro
      by (simp add: joinRoom_def getRoomSet_def members_of_def Let_def sendJson_def notify_def)
  qed
qed

lemma unattached_not_member:
  assumes "registry_inv st" and "socketToRoom st c = None"
  shows "c \<notin> set (members_of st R)"
  using inv_member [OF assms(1), of R _ c] assms(2)
  by (cases "rooms st R") (auto simp: members_of_def)

lemma inv_members_of:
  assumes "registry_inv st"
  shows "distinct (members_of st R)" and "length (members_of st R) \<le> ROOM_LIMIT"
    and "c \<in> set (members_of st R) \<Longrightarrow> socketToRoom st c = Some R"
  using inv_room [OF assms, of R] inv_member [OF assms, of R _ c]
  by (cases "rooms st R"; auto simp: members_of_def)+

lemma inv_add:
  assumes inv: "registry_inv st" and un: "socketToRoom st c = None" and R: "R \<noteq> []"
    and len: "length (members_of st R) < ROOM_LIMIT"
  shows "registry_inv (st\<lparr>rooms := (rooms st)(R \<mapsto> members_of st R @ [c]),
                          socketToRoom := (socketToRoom st)(c \<mapsto> R)\<rparr>)"
  unfolding registry_inv_def
proof (intro conjI allI impI)
  fix R' ms'
  assume a: "rooms (st\<lparr>rooms := (rooms st)(R \<mapsto> members_of st R @ [c]),
                          socketToRoom := (socketToRoom st)(c \<mapsto> R)\<rparr>) R' = Some ms'"
  have nm: "c \<notin> set (members_of st R)" by (rule unattached_not_member [OF inv un])
  have nm': "R' \<noteq> R \<Longrightarrow> c \<notin> set ms'"
    using a unattached_not_member [OF inv un, of R'] by (simp add: members_of_def)
  show "distinct ms'"
    using a nm inv_members_of(1) [OF inv, of R] inv_room [OF inv, of R' ms']
    by (auto split: if_splits)
  show "1 \<le> length ms'"
    using a inv_room [OF inv, of R' ms'] by (cases ms') (auto split: if_splits)
  show "length ms' \<le> ROOM_LIMIT"
    using a len inv_room [OF inv, of R' ms'] by (auto split: if_splits)
  show "\<forall>c'\<in>set ms'. socketToRoom (st\<lparr>rooms := (rooms st)(R \<mapsto> members_of st R @ [c]),
                          socketToRoom := (socketToRoom st)(c \<mapsto> R)\<rparr>) c' = Some R'"
  proof
    fix c' assume c': "c' \<in> set ms'"
    show "socketToRoom (st\<lparr>rooms := (rooms st)(R \<mapsto> members_of st R @ [c]),
                          socketToRoom := (socketToRoom st)(c \<mapsto> R)\<rparr>) c' = Some R'"
    proof (cases "R' = R")
      case True
      then show ?thesis using a c' inv_members_of(3) [OF inv, of c' R] by auto
    next
      case False
      then show ?thesis using a c' nm' inv_member [OF inv, of R' ms' c'] by auto
    qed
  qed
next
  fix c' R'
  assume a: "socketToRoom (st\<lparr>rooms := (rooms st)(R \<mapsto> members_of st R @ [c]),
                          socketToRoom := (socketToRoom st)(c \<mapsto> R)\<rparr>) c' = Some R'"
  show "R' \<noteq> []" using a R inv_room_of [OF inv, of c' R'] by (auto split: if_splits)
  show "\<exists>ms'. rooms (st\<lparr>rooms := (rooms st)(R \<mapsto> members_of st R @ [c]),
                          socketToRoom := (socketToRoom st)(c \<mapsto> R)\<rparr>) R' = Some ms' \<and> c' \<in> set ms'"
    using a inv_room_of [OF inv, of c' R']
    by (auto split: if_splits simp: members_of_def)
qed

lemma joinRoom_inv:
  assumes inv: "registry_inv st" and j: "joinRoom st c room = Inr (st', out)"
  shows "registry_inv st'"
proof -
  obtain left st1 out1 where l: "leaveRoom st c = (left, st1, out1)"
    by (cases "leaveRoom st c") auto
  note l1 = leaveRoom_left [OF inv l]
  consider (throw) e where "optional_trim room = Inl e"
    | (invalid) "optional_trim room = Inr None \<or> optional_trim room = Inr (Some [])"
    | (valid) R where "optional_trim room = Inr (Some R)" "R \<noteq> []"
    by (cases "optional_trim room") (auto, metis option.exhaust)
  then show ?thesis
  proof cases
    case throw
    then show ?thesis using j by (simp add: joinRoom_throw)
  next
    case invalid
    then show ?thesis using j inv by (simp add: joinRoom_invalid)
  next
    case valid
    have add: "set_add c (members_of st1 R) = members_of st1 R @ [c]"
      using unattached_not_member [OF l1(1) l1(2), of R] by (simp add: set_add_def)
    show ?thesis
    proof (cases "length (members_of st1 R) \<ge> ROOM_LIMIT")
      case True
      then show ?thesis using j l1(1) by (simp add: joinRoom_valid [OF valid l])
    next
      case False
      then have "length (members_of st1 R) < ROOM_LIMIT" by simp
      from inv_add [OF l1(1) l1(2) valid(2) this] False j show ?thesis
        by (simp add: joinRoom_valid [OF valid l] add)
    qed
  qed
qed

lemma on_message_inv:
  assumes "registry_inv st"
  shows "registry_inv (fst (on_message parse st c d b))"
proof -
  have tc: "\<And>r. try_control parse st c d = Inr (Some r) \<Longrightarrow> registry_inv (fst r)"
    using assms leaveRoom_inv [OF assms, of c] joinRoom_inv [OF assms, of c]
    by (auto simp: try_control_def split: option.splits sum.splits if_splits prod.splits)
  show ?thesis
    using assms tc by (auto simp: on_message_def split: sum.splits option.splits)
qed

lemma on_close_inv:
  "registry_inv st \<Longrightarrow> registry_inv (fst (on_close st c))"
  using leaveRoom_inv [of st c] by (cases "leaveRoom st c") (simp add: on_close_def)

lemma handle_inv:
  "registry_inv st \<Longrightarrow> registry_inv (fst (handle parse st e))"
  by (cases e) (simp_all add: on_message_inv on_close_inv, simp add: registry_inv_def)

lemma init_inv: "registry_inv (init opn)"
  by (simp add: registry_inv_def init_def)

text \<open>Every state reached from the empty registry satisfies the invariant.\<close>

lemma run_inv:
  "registry_inv st \<Longrightarrow> registry_inv (fst (run parse st es))"
proof (induction es arbitrary: st)
  case Nil
  then show ?case by simp
next
  case (Cons e es)
  from Cons.IH [OF handle_inv [OF Cons.prems, of parse e]] show ?case
    by (simp add: split_beta Let_def)
qed

subsection \<open>What is sent, and the handlers case by case\<close>

lemma notify_mem:
  "p \<in> set ms \<Longrightarrow> readyOpen st p \<Longrightarrow> (p, Json x) \<in> set (notify st ms x)"
  by (auto simp: notify_def sendJson_def)

lemma notify_set:
  "set (notify st ms x) = {(p, Json x) | p. p \<in> set ms \<and> readyOpen st p}"
  by (auto simp: notify_def sendJson_def split: if_splits)

lemma leaveRoom_out:
  assumes "registry_inv st" and "leaveRoom st c = (left, st1, out1)"
  shows "out1 = (if c \<in> set (members_of st (the (socketToRoom st c))) \<and> socketToRoom st c \<noteq> None \<and> members_of st1 (the (socketToRoom st c)) \<noteq> []
                 then notify st (members_of st1 (the (socketToRoom st c)))
                   (RoomState (the (socketToRoom st c)) (length (members_of st1 (the (socketToRoom st c)))) ROOM_LIMIT)
                 else [])"
proof (cases "socketToRoom st c")
  case None
  then show ?thesis using assms(2) by (simp add: leaveRoom_none)
next
  case (Some R)
  from leaveRoom_some [OF assms(1) Some] obtain ms where
    ms: "rooms st R = Some ms" "c \<in> set ms" and
    eq: "leaveRoom st c =
     (Some R,
      st\<lparr>rooms := (rooms st)(R := (if removeAll c ms = [] then None else Some (removeAll c ms))),
          socketToRoom := (socketToRoom st)(c := None)\<rparr>,
      (if removeAll c ms = [] then []
       else notify st (removeAll c ms) (RoomState R (length (removeAll c ms)) ROOM_LIMIT)))"
    by blast
  have m1: "members_of st1 R = removeAll c ms"
    using leaveRoom_left(4) [OF assms, of R] ms(1) by (simp add: members_of_def)
  show ?thesis using eq assms(2) ms Some m1 by (simp add: members_of_def)
qed

lemma joinRoom_success:
  assumes inv: "registry_inv st" and tr: "optional_trim room = Inr (Some R)" and R: "R \<noteq> []"
    and free: "length (removeAll c (members_of st R)) < ROOM_LIMIT"
    and l: "leaveRoom st c = (left, st1, out1)"
  shows "joinRoom st c room =
     Inr (st1\<lparr>rooms := (rooms st1)(R \<mapsto> removeAll c (members_of st R) @ [c]),
              socketToRoom := (socketToRoom st1)(c \<mapsto> R)\<rparr>,
          out1 @ notify st (removeAll c (members_of st R) @ [c])
            (RoomState R (Suc (length (removeAll c (members_of st R)))) ROOM_LIMIT))"
proof -
  note l1 = leaveRoom_left [OF inv l]
  have add: "set_add c (members_of st1 R) = removeAll c (members_of st R) @ [c]"
    by (simp add: set_add_def l1(4))
  show ?thesis
    using free by (simp add: joinRoom_valid [OF tr R l] add) (simp add: l1(4))
qed

lemma leaveRoom_twice:
  "leaveRoom (fst (snd (leaveRoom st c))) c = (None, fst (snd (leaveRoom st c)), [])"
proof (cases "socketToRoom st c")
  case None
  then show ?thesis by (simp add: leaveRoom_none)
next
  case (Some R)
  show ?thesis
  proof (cases "R = []")
    case True
    then show ?thesis using Some by (simp add: leaveRoom_def)
  next
    case False
    then have "socketToRoom (fst (snd (leaveRoom st c))) c = None"
      using Some by (simp add: leaveRoom_def Let_def split: option.splits)
    then show ?thesis by (rule leaveRoom_none)
  qed
qed

lemma length_removeAll_member:
  "distinct ms \<Longrightarrow> c \<in> set ms \<Longrightarrow> Suc (length (removeAll c ms)) = length ms"
  by (induction ms) auto

lemma join_leave_join:
  assumes inv: "registry_inv st" and tr: "optional_trim room = Inr (Some R)" and R: "R \<noteq> []"
    and free: "length (removeAll c (members_of st R)) < ROOM_LIMIT"
  shows "\<exists>s1 o1 s2 o2 o3.
      joinRoom st c room = Inr (s1, o1) \<and> leaveRoom s1 c = (Some R, s2, o2) \<and>
      joinRoom s2 c room = Inr (s1, o3) \<and>
      count_list (members_of s1 R) c = 1 \<and> socketToRoom s1 c = Some R \<and>
      (\<forall>R'. R' \<noteq> R \<longrightarrow> c \<notin> set (members_of s1 R'))"
proof -
  obtain left st1 out1 where l: "leaveRoom st c = (left, st1, out1)"
    by (cases "leaveRoom st c") auto
  note l1 = leaveRoom_left [OF inv l]
  define M where "M = removeAll c (members_of st R) @ [c]"
  define s1 where "s1 = st1\<lparr>rooms := (rooms st1)(R \<mapsto> M), socketToRoom := (socketToRoom st1)(c \<mapsto> R)\<rparr>"
  define o1 where "o1 = out1 @ notify st M (RoomState R (Suc (length (removeAll c (members_of st R)))) ROOM_LIMIT)"
  have j1: "joinRoom st c room = Inr (s1, o1)"
    using joinRoom_success [OF inv tr R free l] by (simp add: s1_def o1_def M_def)
  have inv1: "registry_inv s1" by (rule joinRoom_inv [OF inv j1])
  have r1: "socketToRoom s1 c = Some R" "rooms s1 R = Some M" by (simp_all add: s1_def)
  have m1: "members_of s1 R = M" by (simp add: members_of_def r1)
  obtain left2 s2 o2 where l2: "leaveRoom s1 c = (left2, s2, o2)"
    by (cases "leaveRoom s1 c") auto
  note l21 = leaveRoom_left [OF inv1 l2]
  have left2: "left2 = Some R"
    using leaveRoom_some [OF inv1 r1(1)] l2 by fastforce
  have rm: "removeAll c M = removeAll c (members_of st R)" by (simp add: M_def)
  have m2: "removeAll c (members_of s2 R) = removeAll c (members_of st R)"
    by (simp add: l21(4) m1 rm)
  have free2: "length (removeAll c (members_of s2 R)) < ROOM_LIMIT"
    using free by (simp add: m2)
  have l3: "leaveRoom s2 c = (None, s2, [])" by (rule leaveRoom_none [OF l21(2)])
  have s2: "s2 = s1\<lparr>rooms := (rooms s1)(R := (if removeAll c M = [] then None else Some (removeAll c M))),
            socketToRoom := (socketToRoom s1)(c := None)\<rparr>"
    using leaveRoom_some [OF inv1 r1(1)] l2 r1(2) by fastforce
  have eq: "s2\<lparr>rooms := (rooms s2)(R \<mapsto> removeAll c (members_of s2 R) @ [c]),
              socketToRoom := (socketToRoom s2)(c \<mapsto> R)\<rparr> = s1"
    unfolding m2 by (simp add: s2) (simp add: s1_def M_def)
  have j3: "\<exists>o3. joinRoom s2 c room = Inr (s1, o3)"
    using joinRoom_success [OF l21(1) tr R free2 l3] by (simp add: eq)
  have cnt: "count_list (members_of s1 R) c = 1"
    using inv_members_of(1) [OF inv1, of R] by (simp add: m1 M_def)
  have other: "\<forall>R'. R' \<noteq> R \<longrightarrow> c \<notin> set (members_of s1 R')"
    using inv_members_of(3) [OF inv1, of c] r1(1) by auto
  show ?thesis using j1 l2 left2 j3 cnt other r1(1) by blast
qed

lemma relay_pair:
  assumes a: "registry_inv st" "socketToRoom st s = Some R" "rooms st R = Some ms" "length ms = 2"
      "\<forall>c \<in> set ms. readyOpen st c"
  shows "\<exists>peer. peer \<noteq> s \<and> set ms = {s, peer} \<and>
         broadcastToRoom st s data isBinary = [(peer, Data data isBinary)]"
proof -
  from a have R: "R \<noteq> []" and mem: "s \<in> set ms" and d: "distinct ms"
    using inv_room_of [of st s R] inv_room [of st R ms] by auto
  from a obtain x y where ms: "ms = [x, y]"
    by (cases ms; cases "tl ms") auto
  with d have xy: "x \<noteq> y" by simp
  from mem ms consider "s = x" | "s = y" by auto
  then show ?thesis
  proof cases
    case 1
    then show ?thesis using a ms xy R
      by (intro exI [of _ y]) (auto simp: broadcastToRoom_def)
  next
    case 2
    then show ?thesis using a ms xy R
      by (intro exI [of _ x]) (auto simp: broadcastToRoom_def)
  qed
qed

lemma relay_only_open_peers:
  "(c, f) \<in> set (broadcastToRoom st s data isBinary) \<Longrightarrow>
     readyOpen st c \<and> c \<noteq> s \<and> f = Data data isBinary"
  by (auto simp: broadcastToRoom_def split: option.splits if_splits)

lemma on_message_binary:
  "on_message parse st c d True = (st, broadcastToRoom st c d True)"
  by (simp add: on_message_def)

lemma on_message_unparseable:
  "parse d = None \<Longrightarrow> on_message parse st c d False = (st, broadcastToRoom st c d False)"
  by (simp add: on_message_def try_control_def)

lemma joinRoom_string_returns:
  "joinRoom st c (Some (JString s)) \<noteq> Inl e"
  by (auto simp: joinRoom_def Let_def split: prod.splits if_splits)

lemma on_message_join_string:
  "parse d = Some (JObject kvs) \<Longrightarrow> map_of kvs ''type'' = Some (JString ''join'') \<Longrightarrow>
   map_of kvs ''room'' = Some (JString s) \<Longrightarrow>
   joinRoom st c (Some (JString s)) = Inr (on_message parse st c d False)"
  using joinRoom_string_returns [of st c s]
  by (cases "joinRoom st c (Some (JString s))") (auto simp: on_message_def try_control_def)

lemma on_message_join_not_string:
  "parse d = Some (JObject kvs) \<Longrightarrow> map_of kvs ''type'' = Some (JString ''join'') \<Longrightarrow>
   map_of kvs ''room'' = Some v \<Longrightarrow> v \<noteq> JNull \<Longrightarrow> (\<forall>s. v \<noteq> JString s) \<Longrightarrow>
   on_message parse st c d False = (st, broadcastToRoom st c d False)"
  by (cases v) (auto simp: on_message_def try_control_def joinRoom_def)

subsection \<open>The sample inputs evaluated\<close>

lemmas server_defs =
  on_message_def on_close_def try_control_def joinRoom_def leaveRoom_def getRoomSet_def
  broadcastToRoom_def sendJson_def notify_def set_add_def set_delete_def ROOM_LIMIT_def
  init_def sample_parse_def join_abc_def join_five_def trim_def is_ws_def Let_def

lemma paired_eq:
  "paired = \<lparr>rooms = [''abc'' \<mapsto> [1, 2]], socketToRoom = [1 \<mapsto> ''abc'', 2 \<mapsto> ''abc''],
              readyOpen = (\<lambda>c. True)\<rparr>"
  by (simp add: paired_def server_defs)

lemma paired_inv: "registry_inv paired"
  unfolding paired_def by (rule run_inv [OF init_inv])

lemma paired_facts:
  "rooms paired ''abc'' = Some [1, 2]" "socketToRoom paired 1 = Some ''abc''"
  "socketToRoom paired 3 = None" "members_of paired ''abc'' = [1, 2]"
  "members_of paired ''xyz'' = []" "readyOpen paired = (\<lambda>c. True)"
  by (simp_all add: paired_eq members_of_def)

lemma trim_abc: "optional_trim (Some (JString '' abc '')) = Inr (Some ''abc'')"
  "optional_trim (Some (JString ''xyz'')) = Inr (Some ''xyz'')"
  by (simp_all add: trim_def is_ws_def)

lemma scenario_out:
  "snd (run sample_parse (init (\<lambda>c. True))
      [Message 1 join_abc False, Message 2 join_abc False, Message 3 join_abc False,
       Message 1 ''xyz'' True]) =
   [(1, Json (RoomState ''abc'' 1 2)),
    (1, Json (RoomState ''abc'' 2 2)), (2, Json (RoomState ''abc'' 2 2)),
    (3, Json (ErrorMsg ''room-full'' ''Room is full.'')),
    (2, Data ''xyz'' True)]"
  by (simp add: server_defs)

section \<open>Claims about the relay server\<close>

text \<open>
  Claim C1. In every state reached from the empty registry by any sequence of events
  (messages, which include join and leave, closes of connections, and changes of a socket's
  \<open>readyState\<close>), every room present in \<open>rooms\<close> holds each of its members once and
  has exactly one or two members: no room has more than two, and no room with zero
  members is ever in the registry after an operation.
\<close>

theorem registry_capacity_invariant:
  "rooms (fst (run parse (init opn) evs)) R = Some ms \<Longrightarrow>
     distinct ms \<and> (length ms = 1 \<or> length ms = 2)"
proof -
  assume "rooms (fst (run parse (init opn) evs)) R = Some ms"
  from inv_room [OF run_inv [OF init_inv] this]
  have "distinct ms" and "length ms \<noteq> 0" and "length ms \<le> 2"
    by (simp_all add: ROOM_LIMIT_def)
  then show ?thesis by (simp add: le_Suc_eq numeral_2_eq_2)
qed

theorem registry_capacity_invariant_witness:
  "rooms (fst (run sample_parse (init (\<lambda>c. True))
      [Message 1 join_abc False, Message 2 join_abc False, Message 3 join_abc False, Close 1]))
      ''abc'' = Some [2] \<and>
   distinct [2::nat] \<and> (length [2::nat] = 1 \<or> length [2::nat] = 2)"
proof -
  have e: "rooms (fst (run sample_parse (init (\<lambda>c. True))
      [Message 1 join_abc False, Message 2 join_abc False, Message 3 join_abc False, Close 1]))
      ''abc'' = Some [2]"
    by (simp add: server_defs)
  from registry_capacity_invariant [OF e] e show ?thesis by simp
qed

text \<open>
  Claim C2. In a state that satisfies the invariant, a join by \<open>c\<close> whose trimmed room
  \<open>R\<close> has two members, \<open>c\<close> not among them, returns without joining: what is sent is
  what leaving the previous room sends, followed by the error \<open>room-full\<close> to \<open>c\<close>
  through \<open>sendJson\<close> (so it is sent when the transport of \<open>c\<close> is open, the state in
  which its messages are delivered); no room-state for \<open>R\<close> is sent; the members of
  \<open>R\<close> are unchanged; and afterwards \<open>c\<close> has no room and is a member of none.
\<close>

theorem join_full_room_rejected:
  assumes inv: "registry_inv st" and tr: "optional_trim room = Inr (Some R)" and R: "R \<noteq> []"
    and full: "rooms st R = Some ms" "length ms = 2" and notin: "c \<notin> set ms"
  shows "\<exists>st' out.
     joinRoom st c room = Inr (st', out) \<and>
     out = snd (snd (leaveRoom st c)) @ sendJson st c (ErrorMsg ''room-full'' ''Room is full.'') \<and>
     (readyOpen st c \<longrightarrow> (c, Json (ErrorMsg ''room-full'' ''Room is full.'')) \<in> set out) \<and>
     (\<forall>p n l. (p, Json (RoomState R n l)) \<notin> set out) \<and>
     rooms st' R = Some ms \<and>
     socketToRoom st' c = None \<and>
     (\<forall>R'. c \<notin> set (members_of st' R'))"
proof -
  obtain left st1 out1 where l: "leaveRoom st c = (left, st1, out1)"
    by (cases "leaveRoom st c") auto
  note l1 = leaveRoom_left [OF inv l]
  have m: "members_of st1 R = ms"
    using l1(4) [of R] full(1) notin by (simp add: members_of_def)
  then have r1: "rooms st1 R = Some ms"
    using l1(5) [of R] full(2) by (cases "rooms st1 R") (auto simp: members_of_def)
  have j: "joinRoom st c room =
      Inr (st1, out1 @ sendJson st c (ErrorMsg ''room-full'' ''Room is full.''))"
    using full(2) by (simp add: joinRoom_valid [OF tr R l] m ROOM_LIMIT_def)
  have nR: "socketToRoom st c \<noteq> Some R"
    using inv_room_of [OF inv, of c R] full(1) notin by auto
  have no_state: "\<And>p n l. (p, Json (RoomState R n l)) \<notin> set out1"
    using leaveRoom_out [OF inv l] nR by (auto simp: notify_set split: if_splits)
  show ?thesis
    using j l r1 l1(2) unattached_not_member [OF l1(1) l1(2)] no_state
    by (auto simp: sendJson_def)
qed

theorem join_full_room_rejected_witness:
  "\<exists>st'.
     joinRoom paired 3 (Some (JString '' abc '')) =
       Inr (st', [(3, Json (ErrorMsg ''room-full'' ''Room is full.''))]) \<and>
     rooms st' ''abc'' = Some [1, 2] \<and> socketToRoom st' 3 = None"
proof -
  have "(3::nat) \<notin> set [1, 2]" and "''abc'' \<noteq> []" and "length [1::nat, 2] = 2" by simp_all
  from join_full_room_rejected [OF paired_inv trim_abc(1) this(2) paired_facts(1) this(3) this(1)]
  obtain st' out where
    r: "joinRoom paired 3 (Some (JString '' abc '')) = Inr (st', out)"
       "out = snd (snd (leaveRoom paired 3)) @
          sendJson paired 3 (ErrorMsg ''room-full'' ''Room is full.'')"
       "rooms st' ''abc'' = Some [1, 2]" "socketToRoom st' 3 = None"
    by blast
  have "out = [(3, Json (ErrorMsg ''room-full'' ''Room is full.''))]"
    unfolding r(2) by (simp add: leaveRoom_none paired_facts sendJson_def)
  with r show ?thesis by simp
qed

text \<open>
  Claim C3. \<open>broadcastToRoom\<close>: when the sender is in a room with exactly two members, both
  open, exactly one frame is sent, to the other member, and it carries the data and the
  binary flag as given; when the sender has no room nothing is sent; and in every state a
  frame is sent only to an open socket other than the sender, and is the data with its
  flag. The function returns what is sent and nothing else: it changes no state and has
  no error result.
\<close>

theorem relay_delivery:
  "(registry_inv st \<and> socketToRoom st s = Some R \<and> rooms st R = Some ms \<and> length ms = 2 \<and>
      (\<forall>c \<in> set ms. readyOpen st c) \<longrightarrow>
      (\<exists>peer. peer \<noteq> s \<and> set ms = {s, peer} \<and>
         broadcastToRoom st s data isBinary = [(peer, Data data isBinary)])) \<and>
   (socketToRoom st s = None \<longrightarrow> broadcastToRoom st s data isBinary = []) \<and>
   (\<forall>c f. (c, f) \<in> set (broadcastToRoom st s data isBinary) \<longrightarrow>
      readyOpen st c \<and> c \<noteq> s \<and> f = Data data isBinary)"
proof -
  have "socketToRoom st s = None \<longrightarrow> broadcastToRoom st s data isBinary = []"
    by (simp add: broadcastToRoom_def)
  then show ?thesis
    using relay_pair [of st s R ms data isBinary] relay_only_open_peers [of _ _ st s data isBinary]
    by blast
qed

theorem relay_delivery_witness:
  "broadcastToRoom paired 1 ''xyz'' True = [(2, Data ''xyz'' True)] \<and>
   broadcastToRoom paired 3 ''xyz'' True = []"
proof -
  have "\<forall>c \<in> set [1::nat, 2]. readyOpen paired c" by (simp add: paired_facts)
  then have h: "registry_inv paired \<and> socketToRoom paired 1 = Some ''abc'' \<and>
      rooms paired ''abc'' = Some [1, 2] \<and> length [1::nat, 2] = 2 \<and>
      (\<forall>c \<in> set [1::nat, 2]. readyOpen paired c)"
    using paired_inv paired_facts(1,2) by simp
  from relay_delivery [of paired 1 "''abc''" "[1, 2]" "''xyz''" True] h
  obtain peer where p: "peer \<noteq> 1" "set [1::nat, 2] = {1, peer}"
    "broadcastToRoom paired 1 ''xyz'' True = [(peer, Data ''xyz'' True)]"
    by blast
  from p(1,2) have "peer = 2" by auto
  moreover have "broadcastToRoom paired 3 ''xyz'' True = []"
    using relay_delivery [of paired 3 "''abc''" "[1, 2]" "''xyz''" True] paired_facts(3)
    by blast
  ultimately show ?thesis using p(3) by simp
qed

text \<open>
  Claim C7. A join that succeeds (the trimmed room \<open>R\<close> is not empty and has fewer than
  two members other than \<open>c\<close>) adds \<open>c\<close> at the end of the members of \<open>R\<close> and, after
  what leaving the previous room sends, sends \<open>room-state\<close> with \<open>R\<close>, the new member
  count and the limit 2 to every open member of \<open>R\<close>, \<open>c\<close> itself included.
\<close>

theorem join_notification:
  assumes inv: "registry_inv st" and tr: "optional_trim room = Inr (Some R)" and R: "R \<noteq> []"
    and free: "length (removeAll c (members_of st R)) < ROOM_LIMIT"
  shows "\<exists>st' out.
     joinRoom st c room = Inr (st', out) \<and>
     members_of st' R = removeAll c (members_of st R) @ [c] \<and>
     socketToRoom st' c = Some R \<and>
     readyOpen st' = readyOpen st \<and>
     out = snd (snd (leaveRoom st c)) @
           notify st (members_of st' R) (RoomState R (length (members_of st' R)) 2) \<and>
     (\<forall>p \<in> set (members_of st' R). readyOpen st p \<longrightarrow>
        (p, Json (RoomState R (length (members_of st' R)) 2)) \<in> set out)"
proof -
  obtain left st1 out1 where l: "leaveRoom st c = (left, st1, out1)"
    by (cases "leaveRoom st c") auto
  note l1 = leaveRoom_left [OF inv l]
  show ?thesis
    unfolding joinRoom_success [OF inv tr R free l] l
    by (simp add: members_of_def l1(3) ROOM_LIMIT_def notify_set)
qed

theorem join_notification_witness:
  "\<exists>st' out.
     joinRoom paired 1 (Some (JString ''xyz'')) = Inr (st', out) \<and>
     members_of st' ''xyz'' = [1] \<and>
     (1, Json (RoomState ''xyz'' 1 2)) \<in> set out"
proof -
  have "''xyz'' \<noteq> []" and "length (removeAll 1 (members_of paired ''xyz'')) < ROOM_LIMIT"
    by (simp_all add: paired_facts ROOM_LIMIT_def)
  from join_notification [OF paired_inv trim_abc(2) this]
  obtain st' out where
    r: "joinRoom paired 1 (Some (JString ''xyz'')) = Inr (st', out)"
       "members_of st' ''xyz'' = removeAll 1 (members_of paired ''xyz'') @ [1]"
       "\<forall>p \<in> set (members_of st' ''xyz''). readyOpen paired p \<longrightarrow>
          (p, Json (RoomState ''xyz'' (length (members_of st' ''xyz'')) 2)) \<in> set out"
    by blast
  from r(2) have m: "members_of st' ''xyz'' = [1]" by (simp add: paired_facts)
  from r(3) have "(1, Json (RoomState ''xyz'' 1 2)) \<in> set out"
    unfolding m by (simp add: paired_facts)
  with r(1) m show ?thesis by blast
qed

text \<open>
  Claim C8. \<open>leaveRoom\<close> on a socket with no room returns \<open>null\<close>, changes nothing and
  sends nothing; a second \<open>leaveRoom\<close> right after a first one is such a call, so leaving
  twice equals leaving once; and when a join of \<open>R\<close> by \<open>c\<close> succeeds, then leaving and
  joining \<open>R\<close> again gives back exactly the state after the first join, in which \<open>c\<close>
  occurs once among the members of \<open>R\<close>, has \<open>R\<close> as its room and is a member of no
  other room.
\<close>

theorem leave_idempotent_join_roundtrip:
  "(socketToRoom st c = None \<longrightarrow> leaveRoom st c = (None, st, [])) \<and>
   leaveRoom (fst (snd (leaveRoom st c))) c = (None, fst (snd (leaveRoom st c)), []) \<and>
   (registry_inv st \<and> optional_trim room = Inr (Some R) \<and> R \<noteq> [] \<and>
    length (removeAll c (members_of st R)) < ROOM_LIMIT \<longrightarrow>
      (\<exists>s1 o1 s2 o2 o3.
         joinRoom st c room = Inr (s1, o1) \<and> leaveRoom s1 c = (Some R, s2, o2) \<and>
         joinRoom s2 c room = Inr (s1, o3) \<and>
         count_list (members_of s1 R) c = 1 \<and> socketToRoom s1 c = Some R \<and>
         (\<forall>R'. R' \<noteq> R \<longrightarrow> c \<notin> set (members_of s1 R'))))"
  using leaveRoom_none [of st c] leaveRoom_twice [of st c] join_leave_join [of st room R c]
  by blast

theorem leave_idempotent_join_roundtrip_witness:
  "leaveRoom paired 3 = (None, paired, []) \<and>
   (\<exists>s1 o1 s2 o2 o3.
      joinRoom paired 3 (Some (JString ''xyz'')) = Inr (s1, o1) \<and>
      leaveRoom s1 3 = (Some ''xyz'', s2, o2) \<and>
      joinRoom s2 3 (Some (JString ''xyz'')) = Inr (s1, o3) \<and>
      count_list (members_of s1 ''xyz'') 3 = 1 \<and> socketToRoom s1 3 = Some ''xyz'' \<and>
      (\<forall>R'. R' \<noteq> ''xyz'' \<longrightarrow> 3 \<notin> set (members_of s1 R')))"
proof -
  have f: "length (removeAll 3 (members_of paired ''xyz'')) < ROOM_LIMIT"
    by (simp add: paired_facts ROOM_LIMIT_def)
  have n: "''xyz'' \<noteq> []" by simp
  note h = conjI [OF paired_inv conjI [OF trim_abc(2) conjI [OF n f]]]
  note t = leave_idempotent_join_roundtrip [of paired 3 "Some (JString ''xyz'')" "''xyz''"]
  have a: "leaveRoom paired 3 = (None, paired, [])"
    by (rule t [THEN conjunct1, rule_format, OF paired_facts(3)])
  show ?thesis
    by (rule conjI [OF a t [THEN conjunct2, THEN conjunct2, rule_format, OF h]])
qed

text \<open>
  Claim C9. When \<open>c\<close> is in room \<open>R\<close> (of one or two members) and joins \<open>R\<close> again,
  the join succeeds and no error is sent: the members other than \<open>c\<close> that are open
  first get \<open>room-state\<close> with the count less one, then every open member, \<open>c\<close> last,
  gets \<open>room-state\<close> with the count as it was before.
\<close>

theorem same_room_rejoin:
  assumes inv: "registry_inv st" and cur: "socketToRoom st c = Some R"
    and tr: "optional_trim room = Inr (Some R)"
  shows "\<exists>st' out.
     joinRoom st c room = Inr (st', out) \<and>
     (\<forall>p code msg. (p, Json (ErrorMsg code msg)) \<notin> set out) \<and>
     socketToRoom st' c = Some R \<and>
     members_of st' R = removeAll c (members_of st R) @ [c] \<and>
     length (members_of st' R) = length (members_of st R) \<and>
     out = notify st (removeAll c (members_of st R))
             (RoomState R (length (members_of st R) - 1) 2) @
           notify st (removeAll c (members_of st R) @ [c])
             (RoomState R (length (members_of st R)) 2)"
proof -
  obtain left st1 out1 where l: "leaveRoom st c = (left, st1, out1)"
    by (cases "leaveRoom st c") auto
  note l1 = leaveRoom_left [OF inv l]
  from inv_room_of [OF inv cur] obtain ms where
    R: "R \<noteq> []" and ms: "rooms st R = Some ms" "c \<in> set ms" by blast
  have m: "members_of st R = ms" by (simp add: members_of_def ms)
  have d: "distinct ms" "length ms \<le> ROOM_LIMIT" using inv_room [OF inv ms(1)] by simp_all
  have len: "Suc (length (removeAll c ms)) = length ms"
    by (rule length_removeAll_member [OF d(1) ms(2)])
  have free: "length (removeAll c (members_of st R)) < ROOM_LIMIT"
    using len d(2) by (simp add: m)
  have out1: "out1 = notify st (removeAll c ms) (RoomState R (length ms - 1) 2)"
  proof -
    have "length (removeAll c ms) = length ms - 1" using len by simp
    then show ?thesis
      using leaveRoom_out [OF inv l] cur ms l1(4) [of R]
      by (simp add: m ROOM_LIMIT_def notify_def)
  qed
  show ?thesis
    unfolding joinRoom_success [OF inv tr R free l] m
    using len by (simp add: out1 members_of_def ROOM_LIMIT_def notify_set)
qed

theorem same_room_rejoin_witness:
  "\<exists>st'. joinRoom paired 1 (Some (JString '' abc '')) =
     Inr (st', [(2, Json (RoomState ''abc'' 1 2)),
                (2, Json (RoomState ''abc'' 2 2)), (1, Json (RoomState ''abc'' 2 2))]) \<and>
     members_of st' ''abc'' = [2, 1]"
proof -
  from same_room_rejoin [OF paired_inv paired_facts(2) trim_abc(1)]
  obtain st' out where
    r: "joinRoom paired 1 (Some (JString '' abc '')) = Inr (st', out)"
       "members_of st' ''abc'' = removeAll 1 (members_of paired ''abc'') @ [1]"
       "out = notify paired (removeAll 1 (members_of paired ''abc''))
             (RoomState ''abc'' (length (members_of paired ''abc'') - 1) 2) @
           notify paired (removeAll 1 (members_of paired ''abc'') @ [1])
             (RoomState ''abc'' (length (members_of paired ''abc'')) 2)"
    by blast
  have "out = [(2, Json (RoomState ''abc'' 1 2)),
                (2, Json (RoomState ''abc'' 2 2)), (1, Json (RoomState ''abc'' 2 2))]"
    unfolding r(3) by (simp add: paired_facts notify_def sendJson_def)
  moreover have "members_of st' ''abc'' = [2, 1]" unfolding r(2) by (simp add: paired_facts)
  ultimately show ?thesis using r(1) by simp
qed

text \<open>
  Claim C6. A text message that parses to an object of type \<open>join\<close> is not always
  consumed. With sockets 1 and 2 paired in room \<open>abc\<close>, socket 1 sends the text
  \<open>{"type":"join","room":5}\<close>: \<open>room?.trim()\<close> throws in \<open>joinRoom\<close>, the handler's
  \<open>catch\<close> takes it for invalid JSON, and the text is relayed to socket 2; the registry is
  unchanged and no error is sent to socket 1.
\<close>

theorem join_with_numeric_room_is_relayed:
  "on_message sample_parse paired 1 join_five False = (paired, [(2, Data join_five False)])"
  by (simp add: paired_eq server_defs)

section \<open>Properties of the capture pipeline\<close>

lemmas capture_defs =
  capture_run_def startRecording_def startRecording_granted_def startRecording_denied_def
  stopRecording_def active_recorder_def catch_start_def stop_tracks_def ondataavailable_def
  onstop_def onerror_def idle_capture_def sample_grant_def timeSliceMs_def start_interval_def
  or_else_def Let_def

lemma timeSliceMs_cases:
  "timeSliceMs t = (if t = NaN \<or> t = Finite 0 then Finite 250 else t)"
  by (cases t) (auto simp: timeSliceMs_def or_else_def)

lemma start_interval_timeSliceMs:
  "start_interval t = math_max (Finite 50) (timeSliceMs t)"
  by (simp add: start_interval_def timeSliceMs_def)

lemma timeslice_values_range:
  "x \<in> set timeslice_values \<Longrightarrow> 100 \<le> x \<and> x \<le> 1000"
  by (auto simp: timeslice_values_def)

lemma active_recorder_cong:
  "recorderRef st' = recorderRef st \<Longrightarrow> recorders st' = recorders st \<Longrightarrow>
   active_recorder st' = active_recorder st"
  by (auto simp: active_recorder_def split: option.splits)

lemma start_then_stop:
  assumes "\<not> isRecording st" "hasGetUserMedia st" "ws st = Open"
    "active_recorder st = None" "streamRef st = None"
  shows "capture_run st [StartIntent, StopIntent] = st\<lparr>error := [], acquiring := Suc (acquiring st)\<rparr>"
proof -
  have a: "active_recorder (st\<lparr>error := [], acquiring := Suc (acquiring st)\<rparr>) = None"
    using assms(4) active_recorder_cong [of "st\<lparr>error := [], acquiring := Suc (acquiring st)\<rparr>" st]
    by simp
  have b: "startRecording st = st\<lparr>error := [], acquiring := Suc (acquiring st)\<rparr>"
    using assms(1-3) by (simp add: startRecording_def Let_def)
  have c: "stopRecording (st\<lparr>error := [], acquiring := Suc (acquiring st)\<rparr>) =
      st\<lparr>error := [], acquiring := Suc (acquiring st)\<rparr>"
    using assms(1,5) by (simp add: stopRecording_def a)
  show ?thesis by (simp add: capture_run_def b c)
qed

lemma granted_state:
  assumes "ws st = Open" and "recorderMime g = Inr mime"
  shows "startRecording_granted g st =
     st\<lparr>live := insert (stream g) (live st), streamRef := Some (stream g),
        recorderRef := Some (stream g),
        recorders := (recorders st)(stream g \<mapsto>
          \<lparr>rstate = Recording, interval = Some (start_interval (timeslice st))\<rparr>),
        sent := sent st @
          [AudioConfig (if mime \<noteq> [] then mime else selectedType st)
             (or_null (sampleRate g)) (or_null (channelCount g)) (json_number (timeSliceMs (timeslice st)))],
        isRecording := True\<rparr>"
  using assms by (simp add: startRecording_granted_def Let_def)

text \<open>
  A stop intent between a start intent and the grant of the stream, in any state with the
  socket open, no active recorder and no stream: the stop changes nothing, and the
  continuation of \<open>startRecording\<close> runs in full.
\<close>

lemma stop_before_grant:
  assumes "\<not> isRecording st" and "hasGetUserMedia st" and "ws st = Open"
    and "active_recorder st = None" and "streamRef st = None"
    and m: "recorderMime g = Inr mime"
  shows "capture_run st [StartIntent, StopIntent, Acquired g] =
     startRecording_granted g (st\<lparr>error := []\<rparr>)"
    and "isRecording (capture_run st [StartIntent, StopIntent, Acquired g])"
    and "stream g \<in> live (capture_run st [StartIntent, StopIntent, Acquired g])"
    and "map_option rstate (recorders (capture_run st [StartIntent, StopIntent, Acquired g])
           (stream g)) = Some Recording"
proof -
  have s: "capture_run st [StartIntent, StopIntent] = st\<lparr>error := [], acquiring := Suc (acquiring st)\<rparr>"
    by (rule start_then_stop [OF assms(1-5)])
  have r: "capture_run st [StartIntent, StopIntent, Acquired g] =
      capture_step (st\<lparr>error := [], acquiring := Suc (acquiring st)\<rparr>) (Acquired g)"
    using s by (simp add: capture_run_def)
  show e: "capture_run st [StartIntent, StopIntent, Acquired g] =
     startRecording_granted g (st\<lparr>error := []\<rparr>)"
    by (simp add: r)
  have o: "ws (st\<lparr>error := []\<rparr>) = Open" using assms(3) by simp
  show "isRecording (capture_run st [StartIntent, StopIntent, Acquired g])"
    and "stream g \<in> live (capture_run st [StartIntent, StopIntent, Acquired g])"
    and "map_option rstate (recorders (capture_run st [StartIntent, StopIntent, Acquired g])
           (stream g)) = Some Recording"
    unfolding e granted_state [OF o m] by simp_all
qed

section \<open>Claims about the capture pipeline\<close>

text \<open>
  Claim C5 says that a stop intent issued after a start intent and before the device is
  granted ends with the pipeline idle, nothing streamed and the device released. The code
  does not do this. From the pipeline at rest: a start intent, a stop intent before
  \<open>getUserMedia\<close> settles, then the grant of stream 0. \<open>stopRecording\<close> finds no
  recorder and no stream, and \<open>startRecording\<close> looks at nothing after its \<open>await\<close>:
  at the end \<open>isRecording\<close> is set, stream 0 is held, the recorder is running,
  audio-config has been sent, and the next chunk of the recorder is sent.
\<close>

theorem stop_before_grant_keeps_recording:
  "isRecording (capture_run (idle_capture ''audio/webm'' (Finite 250))
      [StartIntent, StopIntent, Acquired sample_grant]) \<and>
   0 \<in> live (capture_run (idle_capture ''audio/webm'' (Finite 250))
      [StartIntent, StopIntent, Acquired sample_grant]) \<and>
   map_option rstate (recorders (capture_run (idle_capture ''audio/webm'' (Finite 250))
      [StartIntent, StopIntent, Acquired sample_grant]) 0) = Some Recording \<and>
   sent (capture_run (idle_capture ''audio/webm'' (Finite 250))
      [StartIntent, StopIntent, Acquired sample_grant, DataAvailable 0 ''chunk'']) =
     [AudioConfig ''audio/webm;codecs=opus'' (Some 48000) (Some 1) (Some 250),
      Chunk ''chunk'']"
  by (simp add: capture_defs)

text \<open>
  Claim C10. Let \<open>timeslice\<close> be a number that is not negative, or not a number at all
  (every value of \<open>timeslice_values\<close> is such a number), and let \<open>c\<close> be the configured
  interval: \<open>Number(timeslice)\<close>, or 250 when that is 0 or \<open>NaN\<close>. When
  \<open>startRecording\<close> goes on with a granted stream, the socket open and the recorder made,
  the recorder is started with \<open>max 50 c\<close>, which is at least 50, and the audio-config
  message sent carries \<open>timeSliceMs = c\<close>, not clamped. So for every \<open>c\<close> below 50 the
  interval advertised differs from the interval of the recorder, and from 50 on, which
  holds of every value of the range input, they are the same.
\<close>

theorem chunk_interval_advertised_actual:
  assumes "ws st = Open" and "recorderMime g = Inr mime"
    and "timeslice st = NaN \<or> (\<exists>x. timeslice st = Finite x \<and> 0 \<le> x)"
  shows "\<exists>c.
     (timeslice st = Finite c \<and> 0 < c \<or>
      (timeslice st = NaN \<or> timeslice st = Finite 0) \<and> c = 250) \<and>
     recorders (startRecording_granted g st) (stream g) =
       Some \<lparr>rstate = Recording, interval = Some (Finite (max 50 c))\<rparr> \<and>
     sent (startRecording_granted g st) = sent st @
       [AudioConfig (if mime \<noteq> [] then mime else selectedType st)
          (or_null (sampleRate g)) (or_null (channelCount g)) (Some c)] \<and>
     50 \<le> max 50 c \<and> (c < 50 \<longrightarrow> c \<noteq> max 50 c) \<and> (50 \<le> c \<longrightarrow> c = max 50 c)"
proof -
  note gs = granted_state [OF assms(1,2)]
  from assms(3) consider (dflt) "timeslice st = NaN \<or> timeslice st = Finite 0"
    | (pos) x where "timeslice st = Finite x" "0 < x"
    by (auto simp: less_le)
  then show ?thesis
  proof cases
    case dflt
    then have "timeSliceMs (timeslice st) = Finite 250" "start_interval (timeslice st) = Finite 250"
      by (auto simp: timeSliceMs_def start_interval_def or_else_def)
    then show ?thesis using dflt
      by (intro exI [of _ 250]) (simp add: gs)
  next
    case pos
    then have "timeSliceMs (timeslice st) = Finite x"
      "start_interval (timeslice st) = Finite (max 50 x)"
      by (simp_all add: timeSliceMs_def start_interval_def or_else_def)
    then show ?thesis using pos
      by (intro exI [of _ x]) (simp add: gs)
  qed
qed

theorem chunk_interval_advertised_actual_witness:
  "recorders (startRecording_granted sample_grant (idle_capture [] (Finite 20))) 0 =
     Some \<lparr>rstate = Recording, interval = Some (Finite 50)\<rparr> \<and>
   sent (startRecording_granted sample_grant (idle_capture [] (Finite 20))) =
     [AudioConfig ''audio/webm;codecs=opus'' (Some 48000) (Some 1) (Some 20)] \<and>
   recorders (startRecording_granted sample_grant (idle_capture [] (Finite 250))) 0 =
     Some \<lparr>rstate = Recording, interval = Some (Finite 250)\<rparr> \<and>
   sent (startRecording_granted sample_grant (idle_capture [] (Finite 250))) =
     [AudioConfig ''audio/webm;codecs=opus'' (Some 48000) (Some 1) (Some 250)]"
proof -
  have g: "recorderMime sample_grant = Inr ''audio/webm;codecs=opus''"
    by (simp add: sample_grant_def)
  have h: "ws (idle_capture [] (Finite t)) = Open"
    "timeslice (idle_capture [] (Finite t)) = Finite t" for t
    by (simp_all add: idle_capture_def)
  have d: "0 \<le> t \<Longrightarrow> timeslice (idle_capture [] (Finite t)) = NaN \<or>
       (\<exists>x. timeslice (idle_capture [] (Finite t)) = Finite x \<and> 0 \<le> x)" for t
    by (simp add: h)
  have a: "(0::real) \<le> 20" and b: "(0::real) \<le> 250" by simp_all
  from chunk_interval_advertised_actual [OF h(1) g d [OF a]] obtain c where
    c: "timeslice (idle_capture [] (Finite 20)) = Finite c \<and> 0 < c \<or>
          (timeslice (idle_capture [] (Finite 20)) = NaN \<or>
           timeslice (idle_capture [] (Finite 20)) = Finite 0) \<and> c = 250"
    and r: "recorders (startRecording_granted sample_grant (idle_capture [] (Finite 20)))
          (stream sample_grant) = Some \<lparr>rstate = Recording, interval = Some (Finite (max 50 c))\<rparr>"
    and m: "sent (startRecording_granted sample_grant (idle_capture [] (Finite 20))) =
          sent (idle_capture [] (Finite 20)) @
          [AudioConfig (if ''audio/webm;codecs=opus'' \<noteq> [] then ''audio/webm;codecs=opus''
                        else selectedType (idle_capture [] (Finite 20)))
             (or_null (sampleRate sample_grant)) (or_null (channelCount sample_grant)) (Some c)]"
    by (elim exE conjE)
  from c have "c = 20" by (simp add: h)
  with r m have low: "recorders (startRecording_granted sample_grant (idle_capture [] (Finite 20))) 0 =
     Some \<lparr>rstate = Recording, interval = Some (Finite 50)\<rparr> \<and>
   sent (startRecording_granted sample_grant (idle_capture [] (Finite 20))) =
     [AudioConfig ''audio/webm;codecs=opus'' (Some 48000) (Some 1) (Some 20)]"
    by (simp add: idle_capture_def sample_grant_def)
  from chunk_interval_advertised_actual [OF h(1) g d [OF b]] obtain c' where
    c: "timeslice (idle_capture [] (Finite 250)) = Finite c' \<and> 0 < c' \<or>
          (timeslice (idle_capture [] (Finite 250)) = NaN \<or>
           timeslice (idle_capture [] (Finite 250)) = Finite 0) \<and> c' = 250"
    and r: "recorders (startRecording_granted sample_grant (idle_capture [] (Finite 250)))
          (stream sample_grant) = Some \<lparr>rstate = Recording, interval = Some (Finite (max 50 c'))\<rparr>"
    and m: "sent (startRecording_granted sample_grant (idle_capture [] (Finite 250))) =
          sent (idle_capture [] (Finite 250)) @
          [AudioConfig (if ''audio/webm;codecs=opus'' \<noteq> [] then ''audio/webm;codecs=opus''
                        else selectedType (idle_capture [] (Finite 250)))
             (or_null (sampleRate sample_grant)) (or_null (channelCount sample_grant)) (Some c')]"
    by (elim exE conjE)
  from c have "c' = 250" by (auto simp: h)
  with r m have "recorders (startRecording_granted sample_grant (idle_capture [] (Finite 250))) 0 =
     Some \<lparr>rstate = Recording, interval = Some (Finite 250)\<rparr> \<and>
   sent (startRecording_granted sample_grant (idle_capture [] (Finite 250))) =
     [AudioConfig ''audio/webm;codecs=opus'' (Some 48000) (Some 1) (Some 250)]"
    by (simp add: idle_capture_def sample_grant_def)
  with low show ?thesis by simp
qed

section \<open>Properties of the playback queue\<close>

lemma arrived_data_append: "arrived_data (xs @ ys) = arrived_data xs @ arrived_data ys"
  by (induction xs rule: arrived_data.induct) simp_all

lemma played_data_append: "played_data (xs @ ys) = played_data xs @ played_data ys"
  by (induction xs rule: played_data.induct) simp_all

lemma playing_append: "playing (xs @ ys) = foldl playing_step (playing xs) ys"
  by (simp add: playing_def)

lemma player_run_snoc:
  "player_run st (es @ [e]) =
     (let (st1, lg) = player_run st es;
          (st2, acts) = player_step st1 e
      in (st2, lg @ In e # map Out acts))"
  by (induction es arbitrary: st) (simp_all add: split_beta Let_def)

lemma player_init_inv: "player_inv [] 0 0 (player_init ty)"
  by (auto simp: player_inv_def player_init_def)

lemma inv_idle:
  assumes "player_inv bs k f st" and "length bs \<le> f"
  shows "k = length bs" and "f = length bs"
  using assms by (auto simp: player_inv_def)

lemma step_binary_idle:
  assumes inv: "player_inv bs k f st" and idle: "length bs \<le> f"
  shows "player_step st (Binary d) =
           (st\<lparr>fresh := Suc (Suc (length bs)), playQueueRef := Suc (length bs),
               started := {1..Suc (length bs)}\<rparr>,
            [Play (Suc (length bs)) (Blob d (mime_of st))])"
    and "player_inv (bs @ [Blob d (mime_of st)]) (Suc (length bs)) f
           (st\<lparr>fresh := Suc (Suc (length bs)), playQueueRef := Suc (length bs),
               started := {1..Suc (length bs)}\<rparr>)"
proof -
  note kf = inv_idle [OF inv idle]
  have s: "insert (Suc (length bs)) {Suc 0..length bs} = {Suc 0..Suc (length bs)}" by auto
  show "player_step st (Binary d) =
           (st\<lparr>fresh := Suc (Suc (length bs)), playQueueRef := Suc (length bs),
               started := {1..Suc (length bs)}\<rparr>,
            [Play (Suc (length bs)) (Blob d (mime_of st))])"
    using inv idle kf by (simp add: then_play_def run_callback_def player_inv_def Let_def s)
  show "player_inv (bs @ [Blob d (mime_of st)]) (Suc (length bs)) f
           (st\<lparr>fresh := Suc (Suc (length bs)), playQueueRef := Suc (length bs),
               started := {1..Suc (length bs)}\<rparr>)"
    using inv kf by (auto simp: player_inv_def)
qed

lemma step_binary_busy:
  assumes inv: "player_inv bs k f st" and busy: "f < length bs"
  shows "player_step st (Binary d) =
           (st\<lparr>fresh := Suc (Suc (length bs)), playQueueRef := Suc (length bs),
               reactions := (reactions st)(length bs := [(Blob d (mime_of st), Suc (length bs))])\<rparr>,
            [])"
    and "player_inv (bs @ [Blob d (mime_of st)]) k f
           (st\<lparr>fresh := Suc (Suc (length bs)), playQueueRef := Suc (length bs),
               reactions := (reactions st)(length bs := [(Blob d (mime_of st), Suc (length bs))])\<rparr>)"
    and "k = Suc f"
proof -
  have r: "reactions st (length bs) = []" using inv by (simp add: player_inv_def)
  show k: "k = Suc f" using inv busy by (auto simp: player_inv_def)
  show "player_step st (Binary d) =
           (st\<lparr>fresh := Suc (Suc (length bs)), playQueueRef := Suc (length bs),
               reactions := (reactions st)(length bs := [(Blob d (mime_of st), Suc (length bs))])\<rparr>,
            [])"
    using inv busy r by (simp add: then_play_def player_inv_def Let_def)
  show "player_inv (bs @ [Blob d (mime_of st)]) k f
           (st\<lparr>fresh := Suc (Suc (length bs)), playQueueRef := Suc (length bs),
               reactions := (reactions st)(length bs := [(Blob d (mime_of st), Suc (length bs))])\<rparr>)"
    using inv busy k by (auto simp: player_inv_def nth_append)
qed

lemma settle_not_started:
  assumes inv: "player_inv bs k f st" and "a \<notin> started st"
  shows "current k f \<noteq> Some a"
  using assms by (auto simp: player_inv_def current_def)

lemma settle_old:
  assumes inv: "player_inv bs k f st" and "a \<in> started st" and "a \<le> f"
  shows "settle_audio a st = (st, [Revoke a])"
  using assms by (simp add: settle_audio_def resolve_def player_inv_def)

lemma settle_current:
  assumes inv: "player_inv bs k f st" and a: "a \<in> started st" and nf: "f < a"
  shows "a = k" and "k = Suc f"
  using assms by (auto simp: player_inv_def)

lemma settle_next:
  assumes inv: "player_inv bs k f st" and k: "k = Suc f" and more: "k < length bs"
  shows "settle_audio k st =
           (st\<lparr>fulfilled := {..k}, reactions := (reactions st)(k := []),
               started := {1..Suc k}\<rparr>,
            [Revoke k, Play (Suc k) (bs ! k)])"
    and "player_inv bs (Suc k) k
           (st\<lparr>fulfilled := {..k}, reactions := (reactions st)(k := []),
               started := {1..Suc k}\<rparr>)"
proof -
  have r: "reactions st k = [(bs ! k, Suc k)]" using inv more by (simp add: player_inv_def)
  have nf: "k \<notin> fulfilled st" using inv k by (simp add: player_inv_def)
  have s: "insert k {..f} = {..k}" "insert (Suc k) {Suc 0..k} = {Suc 0..Suc k}" using k by auto
  show "settle_audio k st =
           (st\<lparr>fulfilled := {..k}, reactions := (reactions st)(k := []),
               started := {1..Suc k}\<rparr>,
            [Revoke k, Play (Suc k) (bs ! k)])"
    using inv nf r s by (simp add: settle_audio_def resolve_def run_callback_def player_inv_def)
  show "player_inv bs (Suc k) k
           (st\<lparr>fulfilled := {..k}, reactions := (reactions st)(k := []),
               started := {1..Suc k}\<rparr>)"
    using inv more by (auto simp: player_inv_def)
qed

lemma settle_last:
  assumes inv: "player_inv bs k f st" and k: "k = Suc f" and last: "length bs \<le> k"
  shows "settle_audio k st = (st\<lparr>fulfilled := {..k}, reactions := (reactions st)(k := [])\<rparr>, [Revoke k])"
    and "player_inv bs k k (st\<lparr>fulfilled := {..k}, reactions := (reactions st)(k := [])\<rparr>)"
proof -
  have r: "reactions st k = []" using inv last by (simp add: player_inv_def)
  have nf: "k \<notin> fulfilled st" using inv k by (simp add: player_inv_def)
  have s: "insert k {..f} = {..k}" using k by auto
  show "settle_audio k st = (st\<lparr>fulfilled := {..k}, reactions := (reactions st)(k := [])\<rparr>, [Revoke k])"
    using inv nf r s by (simp add: settle_audio_def resolve_def player_inv_def)
  show "player_inv bs k k (st\<lparr>fulfilled := {..k}, reactions := (reactions st)(k := [])\<rparr>)"
    using inv last k by (auto simp: player_inv_def)
qed

lemma inv_k_le: "player_inv bs k f st \<Longrightarrow> k \<le> length bs"
  by (auto simp: player_inv_def)

lemma step_binary:
  assumes inv: "player_inv bs k f st" and rel: "log_rel bs k f lg"
    and step: "player_step st (Binary d) = (st', acts)"
  shows "\<exists>bs' k' f'. player_inv bs' k' f' st' \<and> log_rel bs' k' f' (lg @ In (Binary d) # map Out acts)"
proof (cases "length bs \<le> f")
  case True
  note kf = inv_idle [OF inv True]
  note s = step_binary_idle [OF inv True]
  from s(1) step have acts: "acts = [Play (Suc (length bs)) (Blob d (mime_of st))]"
    and st': "st' = st\<lparr>fresh := Suc (Suc (length bs)), playQueueRef := Suc (length bs),
               started := {1..Suc (length bs)}\<rparr>" by simp_all
  have "log_rel (bs @ [Blob d (mime_of st)]) (Suc (length bs)) f (lg @ In (Binary d) # map Out acts)"
    using rel kf
    by (simp add: log_rel_def playing_append arrived_data_append played_data_append acts current_def)
  with s(2) st' show ?thesis by blast
next
  case False
  then have busy: "f < length bs" by simp
  note s = step_binary_busy [OF inv busy]
  from s(1) step have acts: "acts = []"
    and st': "st' = st\<lparr>fresh := Suc (Suc (length bs)), playQueueRef := Suc (length bs),
               reactions := (reactions st)(length bs := [(Blob d (mime_of st), Suc (length bs))])\<rparr>"
    by simp_all
  have "log_rel (bs @ [Blob d (mime_of st)]) k f (lg @ In (Binary d) # map Out acts)"
    using rel s(3) inv_k_le [OF inv]
    by (simp add: log_rel_def playing_append arrived_data_append played_data_append acts current_def)
  with s(2) st' show ?thesis by blast
qed

lemma step_meta:
  assumes inv: "player_inv bs k f st" and rel: "log_rel bs k f lg"
    and step: "player_step st (MetaChanged m) = (st', acts)"
  shows "\<exists>bs' k' f'. player_inv bs' k' f' st' \<and> log_rel bs' k' f' (lg @ In (MetaChanged m) # map Out acts)"
proof -
  from step have a: "acts = []" "st' = st\<lparr>incomingMime := m\<rparr>" by auto
  have "player_inv bs k f (st\<lparr>incomingMime := m\<rparr>) = player_inv bs k f st"
    by (simp add: player_inv_def)
  then have "player_inv bs k f st'" using inv by (simp add: a)
  moreover have "log_rel bs k f (lg @ In (MetaChanged m) # map Out acts)"
    using rel
    by (simp add: log_rel_def playing_append arrived_data_append played_data_append a current_def)
  ultimately show ?thesis by blast
qed

lemma step_finish:
  assumes inv: "player_inv bs k f st" and rel: "log_rel bs k f lg"
    and e: "player_step st e = (if a \<in> started st then settle_audio a st else (st, []))"
    and fin: "\<And>q. finishes e q = (a = q)" and arr: "arrived_data [In e] = []"
    and step: "player_step st e = (st', acts)"
  shows "\<exists>bs' k' f'. player_inv bs' k' f' st' \<and> log_rel bs' k' f' (lg @ In e # map Out acts)"
proof -
  have pd: "\<And>l. played_data (In e # l) = played_data l"
    by (cases e) simp_all
  have ad: "\<And>l. arrived_data (In e # l) = arrived_data l"
    using arr by (cases e) simp_all
  have keep: "current k f \<noteq> Some a \<Longrightarrow>
      playing_step (Some (current k f)) (In e) = Some (current k f)"
    by (cases "current k f") (simp_all add: fin)
  consider (ignored) "a \<notin> started st" | (old) "a \<in> started st" "a \<le> f"
    | (cur) "a \<in> started st" "f < a" by linarith
  then show ?thesis
  proof cases
    case ignored
    with e step have a: "acts = []" "st' = st" by simp_all
    have "log_rel bs k f (lg @ In e # map Out acts)"
      using rel keep [OF settle_not_started [OF inv ignored]]
      by (simp add: log_rel_def playing_append arrived_data_append played_data_append a pd ad)
    with inv a show ?thesis by blast
  next
    case old
    from e step old settle_old [OF inv old] have a: "acts = [Revoke a]" "st' = st" by simp_all
    have "current k f \<noteq> Some a" using old(2) by (auto simp: current_def)
    then have "log_rel bs k f (lg @ In e # map Out acts)"
      using rel keep
      by (simp add: log_rel_def playing_append arrived_data_append played_data_append a pd ad)
    with inv a show ?thesis by blast
  next
    case cur
    note c = settle_current [OF inv cur]
    have p: "playing_step (Some (current k f)) (In e) = Some None"
      using c by (simp add: current_def fin)
    show ?thesis
    proof (cases "k < length bs")
      case True
      note s = settle_next [OF inv c(2) True]
      from e step cur(1) s(1) c(1) have a: "acts = [Revoke k, Play (Suc k) (bs ! k)]"
        "st' = st\<lparr>fulfilled := {..k}, reactions := (reactions st)(k := []),
               started := {1..Suc k}\<rparr>" by simp_all
      have b: "blob_data (bs ! k) # played_data [] = played_data [Out (Play (Suc k) (bs ! k))]"
        by (cases "bs ! k") simp
      have "log_rel bs (Suc k) k (lg @ In e # map Out acts)"
        using rel p True b
        by (simp add: log_rel_def playing_append arrived_data_append played_data_append a pd ad
            current_def take_Suc_conv_app_nth)
      with s(2) a show ?thesis by blast
    next
      case False
      then have last: "length bs \<le> k" by simp
      note s = settle_last [OF inv c(2) last]
      from e step cur(1) s(1) c(1) have a: "acts = [Revoke k]"
        "st' = st\<lparr>fulfilled := {..k}, reactions := (reactions st)(k := [])\<rparr>" by simp_all
      have "log_rel bs k k (lg @ In e # map Out acts)"
        using rel p
        by (simp add: log_rel_def playing_append arrived_data_append played_data_append a pd ad
            current_def)
      with s(2) a show ?thesis by blast
    qed
  qed
qed

lemma player_step_inv:
  assumes inv: "player_inv bs k f st" and rel: "log_rel bs k f lg"
    and step: "player_step st e = (st', acts)"
  shows "\<exists>bs' k' f'. player_inv bs' k' f' st' \<and> log_rel bs' k' f' (lg @ In e # map Out acts)"
proof (cases e)
  case (Binary d)
  show ?thesis
    using step_binary [OF inv rel step [unfolded Binary]] by (simp add: Binary)
next
  case (MetaChanged m)
  show ?thesis
    using step_meta [OF inv rel step [unfolded MetaChanged]] by (simp add: MetaChanged)
next
  case (Ended a)
  show ?thesis
    by (rule step_finish [OF inv rel _ _ _ step, of a]) (simp_all add: Ended)
next
  case (AudioError a)
  show ?thesis
    by (rule step_finish [OF inv rel _ _ _ step, of a]) (simp_all add: AudioError)
next
  case (PlayRejected a)
  show ?thesis
    by (rule step_finish [OF inv rel _ _ _ step, of a]) (simp_all add: PlayRejected)
qed

lemma player_run_inv:
  assumes "player_run (player_init ty) evs = (st, lg)"
  shows "\<exists>bs k f. player_inv bs k f st \<and> log_rel bs k f lg"
  using assms
proof (induction evs arbitrary: st lg rule: rev_induct)
  case Nil
  then have "st = player_init ty" "lg = []" by simp_all
  then show ?case
    using player_init_inv [of ty]
    by (intro exI [of _ "[]"] exI [of _ 0]) (simp add: log_rel_def playing_def current_def)
next
  case (snoc e es)
  obtain st1 lg1 where r1: "player_run (player_init ty) es = (st1, lg1)"
    by (cases "player_run (player_init ty) es") auto
  obtain st2 acts where s2: "player_step st1 e = (st2, acts)"
    by (cases "player_step st1 e") auto
  from snoc.prems have eq: "st = st2" "lg = lg1 @ In e # map Out acts"
    by (simp_all add: player_run_snoc r1 s2)
  from snoc.IH [OF r1] obtain bs k f where "player_inv bs k f st1" "log_rel bs k f lg1"
    by blast
  from player_step_inv [OF this s2] show ?case by (simp add: eq)
qed

lemma foldl_playing_None: "foldl playing_step None l = None"
  by (induction l) simp_all

lemma playing_unfinished:
  "\<forall>e. In e \<in> set ys \<longrightarrow> \<not> finishes e q \<Longrightarrow>
   foldl playing_step (Some (Some q)) ys = None \<or>
   foldl playing_step (Some (Some q)) ys = Some (Some q)"
proof (induction ys)
  case Nil
  then show ?case by simp
next
  case (Cons x ys)
  show ?case
  proof (cases x)
    case (In e)
    with Cons.prems have "\<not> finishes e q" by simp
    then show ?thesis using Cons In by simp
  next
    case (Out a)
    then show ?thesis using Cons by (cases a) (simp_all add: foldl_playing_None)
  qed
qed

lemma playing_overlap:
  assumes "playing (xs @ Out (Play q b) # ys @ Out (Play q' b') # zs) \<noteq> None"
  shows "\<exists>e. In e \<in> set ys \<and> finishes e q"
proof (rule ccontr)
  assume "\<not> (\<exists>e. In e \<in> set ys \<and> finishes e q)"
  then have n: "\<forall>e. In e \<in> set ys \<longrightarrow> \<not> finishes e q" by blast
  have a: "playing_step (playing xs) (Out (Play q b)) = None \<or>
      playing_step (playing xs) (Out (Play q b)) = Some (Some q)"
    by (cases "playing xs") simp_all
  have "foldl playing_step (playing_step (playing xs) (Out (Play q b))) ys = None \<or>
      foldl playing_step (playing_step (playing xs) (Out (Play q b))) ys = Some (Some q)"
    using a playing_unfinished [OF n] by (auto simp: foldl_playing_None)
  then have "playing_step (foldl playing_step (playing_step (playing xs) (Out (Play q b))) ys)
      (Out (Play q' b')) = None"
    by auto
  then have "playing (xs @ Out (Play q b) # ys @ Out (Play q' b') # zs) = None"
    by (simp add: playing_append foldl_playing_None)
  with assms show False by simp
qed

lemma finishes_cases:
  "finishes e q \<Longrightarrow> e = Ended q \<or> e = AudioError q \<or> e = PlayRejected q"
  by (cases e) simp_all

lemma queue_order:
  assumes "player_inv bs k f st" and "log_rel bs k f lg"
  shows "length (played_data lg) = k" and "length (arrived_data lg) = length bs"
    and "played_data lg = take (length (played_data lg)) (arrived_data lg)"
  using assms inv_k_le [OF assms(1)] by (simp_all add: log_rel_def take_map)

lemma queue_progress:
  assumes inv: "player_inv bs k f st" and rel: "log_rel bs k f lg"
    and more: "length (played_data lg) < length (arrived_data lg)"
  shows "playing lg = Some (Some k)"
    and "finishes e k \<Longrightarrow> \<exists>m. snd (player_step st e) =
           [Revoke k, Play (Suc k) (Blob (arrived_data lg ! length (played_data lg)) m)]"
proof -
  note o = queue_order [OF inv rel]
  from more have lt: "k < length bs" by (simp add: o(1,2))
  then have k: "k = Suc f" using inv by (auto simp: player_inv_def)
  then show "playing lg = Some (Some k)" using rel by (simp add: log_rel_def current_def)
  have st: "k \<in> started st" using inv k by (simp add: player_inv_def)
  obtain d m where b: "bs ! k = Blob d m" by (cases "bs ! k") auto
  have ad: "arrived_data lg = map blob_data bs" using rel by (simp add: log_rel_def)
  have "arrived_data lg ! k = blob_data (bs ! k)" unfolding ad using lt by simp
  then have d: "arrived_data lg ! length (played_data lg) = d" unfolding o(1) b by simp
  assume "finishes e k"
  then have "player_step st e = settle_audio k st"
    using finishes_cases [of e k] st by auto
  then have "snd (player_step st e) = [Revoke k, Play (Suc k) (Blob d m)]"
    by (simp add: settle_next(1) [OF inv k lt] b)
  then show "\<exists>m. snd (player_step st e) =
           [Revoke k, Play (Suc k) (Blob (arrived_data lg ! length (played_data lg)) m)]"
    unfolding d by blast
qed

lemma queue_enqueue:
  assumes inv: "player_inv bs k f st" and rel: "log_rel bs k f lg"
  shows "\<exists>st'. player_step st (Binary d) =
     (st', if playing lg = Some None
           then [Play (Suc (length (arrived_data lg))) (Blob d (mime_of st))] else [])"
proof (cases "length bs \<le> f")
  case True
  note kf = inv_idle [OF inv True]
  have "playing lg = Some None" using rel kf by (simp add: log_rel_def current_def)
  then show ?thesis
    using step_binary_idle(1) [OF inv True, of d] queue_order(2) [OF inv rel] by simp
next
  case False
  then have busy: "f < length bs" by simp
  have "playing lg = Some (Some k)"
    using rel step_binary_busy(3) [OF inv busy] by (simp add: log_rel_def current_def)
  then show ?thesis using step_binary_busy(1) [OF inv busy, of d] by simp
qed


lemmas player_defs =
  player_init_def mime_of_def then_play_def run_callback_def resolve_def settle_audio_def
  Let_def

lemma sample_log:
  "snd (player_run (player_init ''audio/webm'')
      [Binary ''c1'', Binary ''c2'', Binary ''c3'', AudioError 1]) =
   [In (Binary ''c1''), Out (Play 1 (Blob ''c1'' ''audio/webm'')),
    In (Binary ''c2''), In (Binary ''c3''),
    In (AudioError 1), Out (Revoke 1), Out (Play 2 (Blob ''c2'' ''audio/webm''))]"
  by (simp add: player_defs)


section \<open>Claims about the playback queue\<close>

text \<open>
  Claim C4. For every sequence of events from the start (chunks arriving, elements
  ending, failing or having \<open>play\<close> rejected, in any order and at any distance), with
  \<open>lg\<close> the log of the run and \<open>st\<close> the state reached:
  between two calls of \<open>play\<close> in the log there is an event that ended or failed the
  element of the first, so playbacks never overlap;
  the data played are an initial part of the data arrived, in the order of arrival;
  while a chunk that arrived has not been played, one element is playing, and each of its
  events \<open>ended\<close>, \<open>error\<close> and rejection of \<open>play\<close> releases its URL and plays the next
  chunk in the same step, so a chunk that fails does not stall the queue;
  and the handler of an arriving chunk returns without waiting: it plays the chunk when
  nothing is playing and otherwise only chains it.
\<close>

theorem playback_queue_sequencing:
  assumes run: "player_run (player_init ty) evs = (st, lg)"
  shows
   "(\<forall>xs q b ys q' b' zs. lg = xs @ Out (Play q b) # ys @ Out (Play q' b') # zs \<longrightarrow>
       (\<exists>e. In e \<in> set ys \<and> (e = Ended q \<or> e = AudioError q \<or> e = PlayRejected q))) \<and>
    played_data lg = take (length (played_data lg)) (arrived_data lg) \<and>
    (length (played_data lg) < length (arrived_data lg) \<longrightarrow>
       (\<exists>q. playing lg = Some (Some q) \<and>
          (\<forall>e. e = Ended q \<or> e = AudioError q \<or> e = PlayRejected q \<longrightarrow>
             (\<exists>m. snd (player_step st e) =
                [Revoke q, Play (Suc q) (Blob (arrived_data lg ! length (played_data lg)) m)])))) \<and>
    (\<forall>d. \<exists>st'. player_step st (Binary d) =
       (st', if playing lg = Some None
             then [Play (Suc (length (arrived_data lg))) (Blob d (mime_of st))] else []))"
proof -
  from player_run_inv [OF run] obtain bs k f where
    inv: "player_inv bs k f st" and rel: "log_rel bs k f lg" by blast
  have ok: "playing lg \<noteq> None" using rel by (simp add: log_rel_def)
  have A: "\<forall>xs q b ys q' b' zs. lg = xs @ Out (Play q b) # ys @ Out (Play q' b') # zs \<longrightarrow>
       (\<exists>e. In e \<in> set ys \<and> (e = Ended q \<or> e = AudioError q \<or> e = PlayRejected q))"
    using ok playing_overlap finishes_cases by blast
  have B: "played_data lg = take (length (played_data lg)) (arrived_data lg)"
    by (rule queue_order(3) [OF inv rel])
  have C: "length (played_data lg) < length (arrived_data lg) \<longrightarrow>
       (\<exists>q. playing lg = Some (Some q) \<and>
          (\<forall>e. e = Ended q \<or> e = AudioError q \<or> e = PlayRejected q \<longrightarrow>
             (\<exists>m. snd (player_step st e) =
                [Revoke q, Play (Suc q) (Blob (arrived_data lg ! length (played_data lg)) m)])))"
  proof
    assume more: "length (played_data lg) < length (arrived_data lg)"
    have "\<forall>e. e = Ended k \<or> e = AudioError k \<or> e = PlayRejected k \<longrightarrow>
             (\<exists>m. snd (player_step st e) =
                [Revoke k, Play (Suc k) (Blob (arrived_data lg ! length (played_data lg)) m)])"
      using queue_progress(2) [OF inv rel more, of "Ended k"]
        queue_progress(2) [OF inv rel more, of "AudioError k"]
        queue_progress(2) [OF inv rel more, of "PlayRejected k"]
      by auto
    with queue_progress(1) [OF inv rel more]
    show "\<exists>q. playing lg = Some (Some q) \<and>
          (\<forall>e. e = Ended q \<or> e = AudioError q \<or> e = PlayRejected q \<longrightarrow>
             (\<exists>m. snd (player_step st e) =
                [Revoke q, Play (Suc q) (Blob (arrived_data lg ! length (played_data lg)) m)]))"
      by blast
  qed
  have D: "\<forall>d. \<exists>st'. player_step st (Binary d) =
       (st', if playing lg = Some None
             then [Play (Suc (length (arrived_data lg))) (Blob d (mime_of st))] else [])"
    using queue_enqueue [OF inv rel] by blast
  from A B C D show ?thesis by (intro conjI)
qed

theorem playback_queue_sequencing_witness:
  "played_data (snd (player_run (player_init ''audio/webm'')
      [Binary ''c1'', Binary ''c2'', Binary ''c3'', AudioError 1])) = [''c1'', ''c2''] \<and>
   (\<exists>m. snd (player_step (fst (player_run (player_init ''audio/webm'')
      [Binary ''c1'', Binary ''c2'', Binary ''c3'', AudioError 1])) (PlayRejected 2)) =
      [Revoke 2, Play 3 (Blob ''c3'' m)])"
proof -
  define r where "r = player_run (player_init ''audio/webm'')
      [Binary ''c1'', Binary ''c2'', Binary ''c3'', AudioError 1]"
  have run: "player_run (player_init ''audio/webm'')
      [Binary ''c1'', Binary ''c2'', Binary ''c3'', AudioError 1] = (fst r, snd r)"
    by (simp add: r_def)
  have lg: "snd r = [In (Binary ''c1''), Out (Play 1 (Blob ''c1'' ''audio/webm'')),
    In (Binary ''c2''), In (Binary ''c3''),
    In (AudioError 1), Out (Revoke 1), Out (Play 2 (Blob ''c2'' ''audio/webm''))]"
    unfolding r_def by (rule sample_log)
  have p: "played_data (snd r) = [''c1'', ''c2'']" "arrived_data (snd r) = [''c1'', ''c2'', ''c3'']"
    "playing (snd r) = Some (Some 2)"
    by (simp_all add: lg playing_def)
  note t = playback_queue_sequencing [OF run]
  have "length (played_data (snd r)) < length (arrived_data (snd r))" by (simp add: p)
  from t [THEN conjunct2, THEN conjunct2, THEN conjunct1, rule_format, OF this]
  obtain q where q: "playing (snd r) = Some (Some q)"
    "\<forall>e. e = Ended q \<or> e = AudioError q \<or> e = PlayRejected q \<longrightarrow>
       (\<exists>m. snd (player_step (fst r) e) =
          [Revoke q, Play (Suc q) (Blob (arrived_data (snd r) ! length (played_data (snd r))) m)])"
    by blast
  from q(1) have "q = 2" by (simp add: p)
  with q(2) have "\<exists>m. snd (player_step (fst r) (PlayRejected 2)) =
      [Revoke 2, Play 3 (Blob ''c3'' m)]"
    by (simp add: p)
  with p(1) show ?thesis unfolding r_def by simp
qed

end
